theory Spec2Isabelle
  imports Main
begin

section \<open>Recurrence scheduler (routes/reminders.js)\<close>

text \<open>
  A JavaScript \<open>Date\<close> is represented by its calendar fields. The server's time zone is
  taken to be UTC, so that the local-time accessors (\<open>getDate\<close>, \<open>setDate\<close>, \<open>getMonth\<close>,
  \<open>setMonth\<close>, \<open>getFullYear\<close>, \<open>setFullYear\<close>) read and write the same fields that
  \<open>toISOString\<close> prints. Months are numbered from 0 as in JavaScript.
\<close>

record jsdate =
  d_year :: int
  d_month :: nat
  d_day :: nat
  d_msec :: int

definition msPerDay :: int where
  "msPerDay = 86400000"

definition leap_year :: "int \<Rightarrow> bool" where
  "leap_year y = ((y mod 4 = 0 \<and> y mod 100 \<noteq> 0) \<or> y mod 400 = 0)"

definition days_in_month :: "int \<Rightarrow> nat \<Rightarrow> nat" where
  "days_in_month y m =
     (if m = 1 then (if leap_year y then 29 else 28)
      else if m = 3 \<or> m = 5 \<or> m = 8 \<or> m = 10 then 30
      else 31)"

definition valid_date :: "jsdate \<Rightarrow> bool" where
  "valid_date d = (d_month d < 12 \<and> 1 \<le> d_day d \<and> d_day d \<le> days_in_month (d_year d) (d_month d)
                   \<and> 0 \<le> d_msec d \<and> d_msec d < msPerDay)"

text \<open>ECMAScript \<open>DayFromYear\<close>: the day number of 1 January of year \<open>y\<close>, counted from 1970.\<close>

definition DayFromYear :: "int \<Rightarrow> int" where
  "DayFromYear y = 365 * (y - 1970) + (y - 1969) div 4 - (y - 1901) div 100 + (y - 1601) div 400"

fun days_before_month :: "int \<Rightarrow> nat \<Rightarrow> nat" where
  "days_before_month y 0 = 0"
| "days_before_month y (Suc m) = days_before_month y m + days_in_month y m"

text \<open>
  ECMAScript \<open>MakeDay(year, month, date)\<close>: the month is first carried into the year, then
  the day number of the first of that month is found and \<open>date - 1\<close> is added to it.
\<close>

definition MakeDay :: "int \<Rightarrow> nat \<Rightarrow> nat \<Rightarrow> int" where
  "MakeDay y m dt =
     DayFromYear (y + int (m div 12)) + int (days_before_month (y + int (m div 12)) (m mod 12))
       + int dt - 1"

definition time_value :: "jsdate \<Rightarrow> int" where
  "time_value d = MakeDay (d_year d) (d_month d) (d_day d) * msPerDay + d_msec d"

text \<open>
  Reading the fields back from a day that lies past the end of its month: the surplus is
  carried into the following months, one month at a time.
\<close>

function carry_days :: "int \<Rightarrow> nat \<Rightarrow> nat \<Rightarrow> int \<times> nat \<times> nat" where
  "carry_days y m dt =
     (if days_in_month y m < dt
      then (if m \<ge> 11 then carry_days (y + 1) 0 (dt - days_in_month y m)
            else carry_days y (Suc m) (dt - days_in_month y m))
      else (y, m, dt))"
  by pat_completeness auto
termination
  by (relation "measure (\<lambda>(y, m, dt). dt)") (auto simp: days_in_month_def)

declare carry_days.simps [simp del]

definition make_date :: "int \<Rightarrow> nat \<Rightarrow> nat \<Rightarrow> int \<Rightarrow> jsdate" where
  "make_date y m dt ms =
     (case carry_days (y + int (m div 12)) (m mod 12) dt of
        (y', m', d') \<Rightarrow> \<lparr>d_year = y', d_month = m', d_day = d', d_msec = ms\<rparr>)"

definition setDate :: "jsdate \<Rightarrow> nat \<Rightarrow> jsdate" where
  "setDate d dt = make_date (d_year d) (d_month d) dt (d_msec d)"

definition setMonth :: "jsdate \<Rightarrow> nat \<Rightarrow> jsdate" where
  "setMonth d m = make_date (d_year d) m (d_day d) (d_msec d)"

definition setFullYear :: "jsdate \<Rightarrow> int \<Rightarrow> jsdate" where
  "setFullYear d y = make_date y (d_month d) (d_day d) (d_msec d)"

definition calculateNextRecurrence :: "jsdate \<Rightarrow> string option \<Rightarrow> jsdate option" where
  "calculateNextRecurrence currentDate recurrence =
     (if recurrence = Some ''daily'' then Some (setDate currentDate (d_day currentDate + 1))
      else if recurrence = Some ''weekly'' then Some (setDate currentDate (d_day currentDate + 7))
      else if recurrence = Some ''biweekly'' then Some (setDate currentDate (d_day currentDate + 14))
      else if recurrence = Some ''monthly'' then Some (setMonth currentDate (d_month currentDate + 1))
      else if recurrence = Some ''quarterly'' then Some (setMonth currentDate (d_month currentDate + 3))
      else if recurrence = Some ''yearly'' then Some (setFullYear currentDate (d_year currentDate + 1))
      else None)"

text \<open>The day number of a date whose month is in range, as \<open>MakeDay\<close> computes it.\<close>

definition day_number :: "int \<Rightarrow> nat \<Rightarrow> nat \<Rightarrow> int" where
  "day_number y m dt = DayFromYear y + int (days_before_month y m) + int dt - 1"


text \<open>Applying the same recurrence rule \<open>n\<close> times in a row, as \<open>n\<close> successive completions do.\<close>

fun repeat_recurrence :: "nat \<Rightarrow> string option \<Rightarrow> jsdate \<Rightarrow> jsdate option" where
  "repeat_recurrence 0 r d = Some d"
| "repeat_recurrence (Suc n) r d =
     (case calculateNextRecurrence d r of None \<Rightarrow> None | Some d' \<Rightarrow> repeat_recurrence n r d')"

section \<open>Completing a reminder (routes/reminders.js)\<close>

text \<open>
  JavaScript truthiness of a value that is a string, \<open>null\<close> or \<open>undefined\<close>: only a
  non-empty string is truthy.
\<close>

definition truthy :: "string option \<Rightarrow> bool" where
  "truthy s = (case s of None \<Rightarrow> False | Some x \<Rightarrow> x \<noteq> [])"

text \<open>
  A row of the \<open>reminders\<close> table, with the columns the completion route reads or writes.
  Timestamps written by the route (\<open>new Date().toISOString()\<close>) are kept as the clock
  reading in milliseconds.
\<close>

record reminder =
  rm_user_id :: string
  rm_title :: string
  rm_description :: "string option"
  rm_contact_id :: "string option"
  rm_due_date :: jsdate
  rm_type :: string
  rm_priority :: string
  rm_status :: string
  rm_recurrence :: "string option"
  rm_notification_minutes :: "int option"
  rm_completed_at :: "int option"
  rm_updated_at :: "int option"
  rm_completion_notes :: "string option"

text \<open>The table is keyed by the primary key \<open>id\<close>.\<close>

type_synonym reminders_tbl = "string \<rightharpoonup> reminder"

datatype complete_response =
    CompleteOk reminder
  | CompleteNotFound

text \<open>
  The \<open>updates\<close> object of the route applied to a row: status, completion time and update
  time are always set, the completion notes only when the request carries truthy \<open>notes\<close>.
\<close>

definition mark_completed :: "reminder \<Rightarrow> string option \<Rightarrow> int \<Rightarrow> reminder" where
  "mark_completed r notes now =
     (let r1 = r\<lparr>rm_status := ''completed'', rm_completed_at := Some now,
                   rm_updated_at := Some now\<rparr>
      in if truthy notes then r1\<lparr>rm_completion_notes := notes\<rparr> else r1)"

text \<open>
  \<open>update(updates).eq('id', id).eq('user_id', userId).select().single()\<close>: the row with
  that key is updated when it belongs to the user; when no row matches, \<open>single()\<close> reports
  \<open>PGRST116\<close> and nothing is written.
\<close>

definition update_completed ::
  "reminders_tbl \<Rightarrow> string \<Rightarrow> string \<Rightarrow> string option \<Rightarrow> int \<Rightarrow> (reminder \<times> reminders_tbl) option" where
  "update_completed tbl userId rid notes now =
     (case tbl rid of
        None \<Rightarrow> None
      | Some r \<Rightarrow>
          if rm_user_id r = userId
          then (let r2 = mark_completed r notes now in Some (r2, tbl(rid \<mapsto> r2)))
          else None)"

text \<open>
  \<open>insert\<close> of one row under the key the database generates for it. A key already in use is
  a primary-key violation: the insert reports an error and writes nothing. The route does not
  look at the result of this insert.
\<close>

definition insert_reminder :: "reminders_tbl \<Rightarrow> string \<Rightarrow> reminder \<Rightarrow> reminders_tbl" where
  "insert_reminder tbl new_id r = (if new_id \<in> dom tbl then tbl else tbl(new_id \<mapsto> r))"

text \<open>
  The row the route inserts for the next occurrence. Columns it does not name take the table's
  defaults, which are modelled as absent values.
\<close>

definition successor_reminder :: "string \<Rightarrow> reminder \<Rightarrow> jsdate \<Rightarrow> reminder" where
  "successor_reminder userId r nextDue =
     \<lparr>rm_user_id = userId, rm_title = rm_title r, rm_description = rm_description r,
      rm_contact_id = rm_contact_id r, rm_due_date = nextDue, rm_type = rm_type r,
      rm_priority = rm_priority r, rm_status = ''pending'', rm_recurrence = rm_recurrence r,
      rm_notification_minutes = rm_notification_minutes r, rm_completed_at = None,
      rm_updated_at = None, rm_completion_notes = None\<rparr>"

text \<open>
  \<open>PUT /api/reminders/:id/complete\<close> for the authenticated user \<open>userId\<close>, at clock
  reading \<open>now\<close>; \<open>new_id\<close> is the key the database would give to an inserted row.
\<close>

definition complete_reminder ::
  "reminders_tbl \<Rightarrow> string \<Rightarrow> string \<Rightarrow> string option \<Rightarrow> int \<Rightarrow> string
     \<Rightarrow> complete_response \<times> reminders_tbl" where
  "complete_reminder tbl userId rid notes now new_id =
     (case update_completed tbl userId rid notes now of
        None \<Rightarrow> (CompleteNotFound, tbl)
      | Some (data, tbl1) \<Rightarrow>
          if truthy (rm_recurrence data)
          then (case calculateNextRecurrence (rm_due_date data) (rm_recurrence data) of
                  Some nextDue \<Rightarrow>
                    (CompleteOk data, insert_reminder tbl1 new_id (successor_reminder userId data nextDue))
                | None \<Rightarrow> (CompleteOk data, tbl1))
          else (CompleteOk data, tbl1))"

definition recurrence_rules :: "string list" where
  "recurrence_rules = [''daily'', ''weekly'', ''biweekly'', ''monthly'', ''quarterly'', ''yearly'']"

text \<open>A weekly reminder of user \<open>u1\<close>, due on 31 January 2024 at 09:30, used as a worked instance.\<close>

definition example_reminder :: reminder where
  "example_reminder =
     \<lparr>rm_user_id = ''u1'', rm_title = ''Call back'', rm_description = None,
      rm_contact_id = Some ''c7'',
      rm_due_date = \<lparr>d_year = 2024, d_month = 0, d_day = 31, d_msec = 34200000\<rparr>,
      rm_type = ''call'', rm_priority = ''high'', rm_status = ''pending'',
      rm_recurrence = Some ''weekly'', rm_notification_minutes = Some 30,
      rm_completed_at = None, rm_updated_at = None, rm_completion_notes = None\<rparr>"

section \<open>Sliding-window rate limiter (middleware/rateLimit.js)\<close>

text \<open>
  The limiter keeps, per key, a Redis sorted set of tokens scored by their time stamp. The
  token written by an admitted call is the string \<open>now-random\<close>; it is represented by the
  pair of the clock reading and the draw of \<open>Math.random()\<close> it is built from. A key may
  carry an expiry time, set by \<open>EXPIRE\<close>; a key whose expiry time has passed is gone. The
  Redis server is taken to read the same clock as \<open>Date.now()\<close>, in milliseconds.
\<close>

type_synonym ztoken = "int \<times> nat"

record zset_key =
  zs_entries :: "(ztoken \<times> int) list"
  zs_expire_at :: "int option"

text \<open>
  The client either reaches the server or throws on every command (\<open>rd_up\<close> false).
\<close>

record redis =
  rd_up :: bool
  rd_keys :: "string \<Rightarrow> zset_key option"

datatype redis_error = ConnectionError

definition live_key :: "redis \<Rightarrow> int \<Rightarrow> string \<Rightarrow> zset_key option" where
  "live_key rd now k =
     (case rd_keys rd k of
        None \<Rightarrow> None
      | Some z \<Rightarrow> (case zs_expire_at z of
                     None \<Rightarrow> Some z
                   | Some e \<Rightarrow> if e < now then None else Some z))"

text \<open>Writing a key back: a sorted set left without members is deleted.\<close>

definition store_key :: "redis \<Rightarrow> string \<Rightarrow> zset_key \<Rightarrow> redis" where
  "store_key rd k z =
     (if zs_entries z = [] then rd\<lparr>rd_keys := (rd_keys rd)(k := None)\<rparr>
      else rd\<lparr>rd_keys := (rd_keys rd)(k := Some z)\<rparr>)"

text \<open>\<open>ZREMRANGEBYSCORE key min max\<close> removes the members with \<open>min \<le> score \<le> max\<close>.\<close>

definition in_score_range :: "int \<Rightarrow> int \<Rightarrow> ztoken \<times> int \<Rightarrow> bool" where
  "in_score_range lo hi e = (lo \<le> snd e \<and> snd e \<le> hi)"

definition zremrangebyscore :: "redis \<Rightarrow> int \<Rightarrow> string \<Rightarrow> int \<Rightarrow> int \<Rightarrow> redis_error + redis" where
  "zremrangebyscore rd now k lo hi =
     (if \<not> rd_up rd then Inl ConnectionError
      else case live_key rd now k of
             None \<Rightarrow> Inr (rd\<lparr>rd_keys := (rd_keys rd)(k := None)\<rparr>)
           | Some z \<Rightarrow>
               Inr (store_key rd k
                      (z\<lparr>zs_entries := filter (\<lambda>e. \<not> in_score_range lo hi e) (zs_entries z)\<rparr>)))"

text \<open>\<open>ZCARD key\<close>: the number of members, 0 for a missing key.\<close>

definition zcard :: "redis \<Rightarrow> int \<Rightarrow> string \<Rightarrow> redis_error + int" where
  "zcard rd now k =
     (if \<not> rd_up rd then Inl ConnectionError
      else case live_key rd now k of
             None \<Rightarrow> Inr 0
           | Some z \<Rightarrow> Inr (int (length (zs_entries z))))"

text \<open>
  \<open>ZADD key score member\<close>: a new member is added, a member already there only has its score
  replaced. A key created here carries no expiry time; an existing one keeps its own.
\<close>

fun zadd_entry :: "ztoken \<Rightarrow> int \<Rightarrow> (ztoken \<times> int) list \<Rightarrow> (ztoken \<times> int) list" where
  "zadd_entry m s [] = [(m, s)]"
| "zadd_entry m s ((m', s') # es) = (if m' = m then (m, s) # es else (m', s') # zadd_entry m s es)"

definition zadd :: "redis \<Rightarrow> int \<Rightarrow> string \<Rightarrow> int \<Rightarrow> ztoken \<Rightarrow> redis_error + redis" where
  "zadd rd now k score m =
     (if \<not> rd_up rd then Inl ConnectionError
      else case live_key rd now k of
             None \<Rightarrow> Inr (rd\<lparr>rd_keys := (rd_keys rd)(k := Some \<lparr>zs_entries = [(m, score)], zs_expire_at = None\<rparr>)\<rparr>)
           | Some z \<Rightarrow> Inr (rd\<lparr>rd_keys := (rd_keys rd)(k := Some (z\<lparr>zs_entries := zadd_entry m score (zs_entries z)\<rparr>))\<rparr>))"

text \<open>
  \<open>EXPIRE key seconds\<close>: an existing key is given the expiry time \<open>now + seconds\<close>; with a
  time to live that is not positive the key is deleted at once.
\<close>

definition expire :: "redis \<Rightarrow> int \<Rightarrow> string \<Rightarrow> int \<Rightarrow> redis_error + redis" where
  "expire rd now k seconds =
     (if \<not> rd_up rd then Inl ConnectionError
      else case live_key rd now k of
             None \<Rightarrow> Inr (rd\<lparr>rd_keys := (rd_keys rd)(k := None)\<rparr>)
           | Some z \<Rightarrow>
               if seconds \<le> 0 then Inr (rd\<lparr>rd_keys := (rd_keys rd)(k := None)\<rparr>)
               else Inr (rd\<lparr>rd_keys := (rd_keys rd)(k := Some (z\<lparr>zs_expire_at := Some (now + seconds * 1000)\<rparr>))\<rparr>))"

record SlidingWindowRateLimiter =
  lim_redis :: "redis option"
  lim_windowMs :: int
  lim_max :: int
  lim_keyPrefix :: string

text \<open>The constructor: an option that is missing or falsy (0, the empty string) gets its default.\<close>

definition new_limiter :: "redis option \<Rightarrow> int option \<Rightarrow> int option \<Rightarrow> string option \<Rightarrow> SlidingWindowRateLimiter" where
  "new_limiter rd windowMs mx keyPrefix =
     \<lparr>lim_redis = rd,
      lim_windowMs = (case windowMs of None \<Rightarrow> 60000 | Some w \<Rightarrow> if w = 0 then 60000 else w),
      lim_max = (case mx of None \<Rightarrow> 100 | Some m \<Rightarrow> if m = 0 then 100 else m),
      lim_keyPrefix = (case keyPrefix of None \<Rightarrow> ''ratelimit:'' | Some p \<Rightarrow> if p = [] then ''ratelimit:'' else p)\<rparr>"

record admit_result =
  allowed :: bool
  remaining :: int

text \<open>\<open>Math.ceil(windowMs / 1000)\<close> on an integer number of milliseconds.\<close>

definition ceil_seconds :: "int \<Rightarrow> int" where
  "ceil_seconds w = - ((- w) div 1000)"

text \<open>
  \<open>isAllowed\<close> waits for the reply to each of its Redis commands, and while it waits other
  calls run. A call therefore advances in stretches, each of which sends one command; the
  server executes the commands in the order in which they are sent. The phase of a call says
  which command comes next, with the count it has read once it has one.
\<close>

datatype admit_phase =
    Purging
  | Counting
  | Adding int
  | Expiring int
  | Returned admit_result

text \<open>
  One stretch of \<open>isAllowed(key)\<close>, for the call that read \<open>now\<close> from the clock and draws
  \<open>rnd\<close>: the command of the phase is executed on the store as it stands, and the reply
  decides how the call goes on. Without a client, and when the command throws, the call
  returns \<open>allowed\<close> with the full budget.
\<close>

definition isAllowed_step ::
  "SlidingWindowRateLimiter \<Rightarrow> string \<Rightarrow> int \<Rightarrow> nat \<Rightarrow> admit_phase \<Rightarrow> admit_phase \<times> SlidingWindowRateLimiter" where
  "isAllowed_step lim key now rnd p =
     (case p of
        Returned r \<Rightarrow> (Returned r, lim)
      | _ \<Rightarrow>
        (case lim_redis lim of
           None \<Rightarrow> (Returned \<lparr>allowed = True, remaining = lim_max lim\<rparr>, lim)
         | Some rd \<Rightarrow>
             (let windowStart = now - lim_windowMs lim;
                  redisKey = lim_keyPrefix lim @ key;
                  fail_open = Returned \<lparr>allowed = True, remaining = lim_max lim\<rparr>
              in case p of
                   Purging \<Rightarrow>
                     (case zremrangebyscore rd now redisKey 0 windowStart of
                        Inl e \<Rightarrow> (fail_open, lim)
                      | Inr rd1 \<Rightarrow> (Counting, lim\<lparr>lim_redis := Some rd1\<rparr>))
                 | Counting \<Rightarrow>
                     (case zcard rd now redisKey of
                        Inl e \<Rightarrow> (fail_open, lim)
                      | Inr count \<Rightarrow>
                          if count \<ge> lim_max lim
                          then (Returned \<lparr>allowed = False, remaining = 0\<rparr>, lim)
                          else (Adding count, lim))
                 | Adding count \<Rightarrow>
                     (case zadd rd now redisKey now (now, rnd) of
                        Inl e \<Rightarrow> (fail_open, lim)
                      | Inr rd2 \<Rightarrow> (Expiring count, lim\<lparr>lim_redis := Some rd2\<rparr>))
                 | Expiring count \<Rightarrow>
                     (case expire rd now redisKey (ceil_seconds (lim_windowMs lim)) of
                        Inl e \<Rightarrow> (fail_open, lim)
                      | Inr rd3 \<Rightarrow>
                          (Returned \<lparr>allowed = True, remaining = lim_max lim - count - 1\<rparr>,
                           lim\<lparr>lim_redis := Some rd3\<rparr>))
                 | Returned r \<Rightarrow> (Returned r, lim))))"

text \<open>The number of commands a call in a phase may still send.\<close>

fun commands_left :: "admit_phase \<Rightarrow> nat" where
  "commands_left Purging = 4"
| "commands_left Counting = 3"
| "commands_left (Adding c) = 2"
| "commands_left (Expiring c) = 1"
| "commands_left (Returned r) = 0"

text \<open>A call that runs from a phase to its return with no other call in between.\<close>

function (sequential) run_call ::
  "SlidingWindowRateLimiter \<Rightarrow> string \<Rightarrow> int \<Rightarrow> nat \<Rightarrow> admit_phase \<Rightarrow> admit_result \<times> SlidingWindowRateLimiter" where
  "run_call lim key now rnd (Returned r) = (r, lim)"
| "run_call lim key now rnd p =
     (case isAllowed_step lim key now rnd p of (p', lim') \<Rightarrow> run_call lim' key now rnd p')"
  by pat_completeness auto
termination
  by (relation "measure (\<lambda>(lim, key, now, rnd, p). commands_left p)")
     (auto simp: isAllowed_step_def Let_def split: option.splits sum.splits if_splits)

text \<open>
  \<open>isAllowed(key)\<close> at clock reading \<open>now\<close>, with \<open>rnd\<close> the draw of \<open>Math.random()\<close>,
  when no other call runs between its stretches. The limiter is returned with the state its
  Redis server is left in.
\<close>

definition isAllowed ::
  "SlidingWindowRateLimiter \<Rightarrow> string \<Rightarrow> int \<Rightarrow> nat \<Rightarrow> admit_result \<times> SlidingWindowRateLimiter" where
  "isAllowed lim key now rnd = run_call lim key now rnd Purging"

text \<open>
  A series of calls for one key, each with its clock reading and random draw, that do not
  overlap: every call has returned before the next one starts.
\<close>

fun isAllowed_series ::
  "SlidingWindowRateLimiter \<Rightarrow> string \<Rightarrow> (int \<times> nat) list \<Rightarrow> admit_result list \<times> SlidingWindowRateLimiter" where
  "isAllowed_series lim key [] = ([], lim)"
| "isAllowed_series lim key ((now, rnd) # calls) =
     (case isAllowed lim key now rnd of
        (res, lim') \<Rightarrow> (case isAllowed_series lim' key calls of (rs, lim'') \<Rightarrow> (res # rs, lim'')))"

text \<open>The tokens a key holds at a clock reading: those of the sorted set, if it has not expired.\<close>

definition key_tokens :: "redis \<Rightarrow> int \<Rightarrow> string \<Rightarrow> (ztoken \<times> int) list" where
  "key_tokens rd now k = (case live_key rd now k of None \<Rightarrow> [] | Some z \<Rightarrow> zs_entries z)"

definition tokens_at :: "SlidingWindowRateLimiter \<Rightarrow> string \<Rightarrow> int \<Rightarrow> (ztoken \<times> int) list" where
  "tokens_at lim key now =
     (case lim_redis lim of
        None \<Rightarrow> []
      | Some rd \<Rightarrow> key_tokens rd now (lim_keyPrefix lim @ key))"

text \<open>The limiter's store is there and answers.\<close>

definition redis_available :: "SlidingWindowRateLimiter \<Rightarrow> bool" where
  "redis_available lim = (case lim_redis lim of None \<Rightarrow> False | Some rd \<Rightarrow> rd_up rd)"

text \<open>The tokens of a key that the purge of a call at \<open>now\<close> leaves in place.\<close>

definition surviving_tokens :: "SlidingWindowRateLimiter \<Rightarrow> string \<Rightarrow> int \<Rightarrow> (ztoken \<times> int) list" where
  "surviving_tokens lim key now =
     filter (\<lambda>e. \<not> in_score_range 0 (now - lim_windowMs lim) e) (tokens_at lim key now)"

text \<open>The sorted-set entries that a list of admitted calls writes: each token with its time stamp as score.\<close>

definition tokens_of_calls :: "(int \<times> nat) list \<Rightarrow> (ztoken \<times> int) list" where
  "tokens_of_calls calls = map (\<lambda>c. (c, fst c)) calls"

text \<open>The answers to a run of admitted calls: the budget left goes down by one with each.\<close>

definition admitted_results :: "int \<Rightarrow> nat \<Rightarrow> nat \<Rightarrow> admit_result list" where
  "admitted_results mx i n = map (\<lambda>j. \<lparr>allowed = True, remaining = mx - int j - 1\<rparr>) [i ..< i + n]"

text \<open>
  A limiter over a reachable, empty store, built with \<open>windowMs = 1000\<close> and \<open>max = 2\<close>, used
  as a worked instance.
\<close>

definition example_limiter :: SlidingWindowRateLimiter where
  "example_limiter = new_limiter (Some \<lparr>rd_up = True, rd_keys = (\<lambda>k. None)\<rparr>) (Some 1000) (Some 2) None"

text \<open>
  Calls in flight on one limiter: the limiter with its store, and each call with its key, its
  clock reading, its random draw and its phase. A schedule names, stretch by stretch, the call
  that advances next.
\<close>

record admit_call =
  ac_key :: string
  ac_now :: int
  ac_rnd :: nat
  ac_phase :: admit_phase

definition new_call :: "string \<Rightarrow> int \<times> nat \<Rightarrow> admit_call" where
  "new_call key c = \<lparr>ac_key = key, ac_now = fst c, ac_rnd = snd c, ac_phase = Purging\<rparr>"

definition advance_call ::
  "nat \<Rightarrow> SlidingWindowRateLimiter \<times> admit_call list \<Rightarrow> SlidingWindowRateLimiter \<times> admit_call list" where
  "advance_call i w =
     (case w of
        (lim, cs) \<Rightarrow>
          if i < length cs
          then (case isAllowed_step lim (ac_key (cs ! i)) (ac_now (cs ! i)) (ac_rnd (cs ! i)) (ac_phase (cs ! i)) of
                  (p', lim') \<Rightarrow> (lim', cs[i := (cs ! i)\<lparr>ac_phase := p'\<rparr>]))
          else (lim, cs))"

fun run_calls ::
  "nat list \<Rightarrow> SlidingWindowRateLimiter \<times> admit_call list \<Rightarrow> SlidingWindowRateLimiter \<times> admit_call list" where
  "run_calls [] w = w"
| "run_calls (i # sched) w = run_calls sched (advance_call i w)"

text \<open>The schedule on which the calls \<open>a, a + 1, ...\<close> do not overlap: each runs to its return
  before the next starts.\<close>

definition back_to_back :: "nat \<Rightarrow> nat \<Rightarrow> nat list" where
  "back_to_back a n = concat (map (\<lambda>i. [i, i, i, i]) [a ..< a + n])"

text \<open>
  A limiter over a reachable, empty store, built with \<open>windowMs = 1000\<close> and \<open>max = 1\<close>, used
  as a worked instance.
\<close>

definition single_limiter :: SlidingWindowRateLimiter where
  "single_limiter = new_limiter (Some \<lparr>rd_up = True, rd_keys = (\<lambda>k. None)\<rparr>) (Some 1000) (Some 1) None"

section \<open>Contact quota (middleware/auth.js)\<close>

text \<open>
  A row of the \<open>profiles\<close> table, as far as the quota check reads it. Either column may be
  \<open>null\<close>.
\<close>

record profile =
  subscription_plan :: "string option"
  contact_count :: "int option"

text \<open>
  The request after \<open>authenticateToken\<close>: \<open>req.user\<close> and, when the profile could be loaded,
  \<open>req.userProfile\<close>.
\<close>

record request =
  req_user :: "string option"
  req_userProfile :: "profile option"

record contactLimit =
  cl_current :: int
  cl_max :: int
  cl_remaining :: int

definition planLimits :: "(string \<times> int) list" where
  "planLimits = [(''free'', 50), (''trial'', 50), (''base'', 250000), (''enterprise'', 1000000)]"

text \<open>
  \<open>profile?.subscription_plan || 'free'\<close> and \<open>planLimits[userPlan] || planLimits.free\<close>. The
  lookup is over the four keys of the table; a plan name that happens to be a property every
  JavaScript object inherits (such as \<open>constructor\<close>) is outside this model.
\<close>

definition userPlan_of :: "profile option \<Rightarrow> string" where
  "userPlan_of p =
     (case p of
        None \<Rightarrow> ''free''
      | Some pr \<Rightarrow> (case subscription_plan pr of
                      None \<Rightarrow> ''free''
                    | Some plan \<Rightarrow> if plan = [] then ''free'' else plan))"

definition maxContacts_of :: "string \<Rightarrow> int" where
  "maxContacts_of userPlan =
     (case map_of planLimits userPlan of
        None \<Rightarrow> 50
      | Some n \<Rightarrow> if n = 0 then 50 else n)"

text \<open>\<open>profile?.contact_count || 0\<close>.\<close>

definition currentCount_of :: "profile option \<Rightarrow> int" where
  "currentCount_of p =
     (case p of
        None \<Rightarrow> 0
      | Some pr \<Rightarrow> (case contact_count pr of None \<Rightarrow> 0 | Some c \<Rightarrow> c))"

text \<open>The responses of the API: a success with its payload, or an error with status and code.\<close>

datatype 'a response =
    Success nat 'a
  | Failure nat string

text \<open>
  \<open>checkContactLimit()\<close>: either the error response it sends, or the \<open>req.contactLimit\<close>
  it attaches before calling \<open>next()\<close>.
\<close>

definition checkContactLimit :: "request \<Rightarrow> (nat \<times> string) + contactLimit" where
  "checkContactLimit req =
     (if req_user req = None then Inl (401, ''UNAUTHORIZED'')
      else let profile = req_userProfile req;
               userPlan = userPlan_of profile;
               maxContacts = maxContacts_of userPlan;
               currentCount = currentCount_of profile
           in if currentCount \<ge> maxContacts then Inl (403, ''CONTACT_LIMIT_REACHED'')
              else Inr \<lparr>cl_current = currentCount, cl_max = maxContacts,
                         cl_remaining = maxContacts - currentCount\<rparr>)"

section \<open>Strings\<close>

text \<open>
  JavaScript strings are modelled by \<open>string\<close>, one \<open>char\<close> per code unit in the Latin-1
  range. White space is what \<open>trim\<close> and the regular-expression class \<open>\s\<close> take it to be
  in that range.
\<close>

definition is_space :: "char \<Rightarrow> bool" where
  "is_space c = ((of_char c :: nat) \<in> {9, 10, 11, 12, 13, 32, 160})"

definition is_digit :: "char \<Rightarrow> bool" where
  "is_digit c = (48 \<le> (of_char c :: nat) \<and> (of_char c :: nat) \<le> 57)"

definition trim :: "string \<Rightarrow> string" where
  "trim s = rev (dropWhile is_space (rev (dropWhile is_space s)))"

definition lower_char :: "char \<Rightarrow> char" where
  "lower_char c =
     (let n = (of_char c :: nat)
      in if (65 \<le> n \<and> n \<le> 90) \<or> (192 \<le> n \<and> n \<le> 222 \<and> n \<noteq> 215) then char_of (n + 32) else c)"

definition toLowerCase :: "string \<Rightarrow> string" where
  "toLowerCase s = map lower_char s"

text \<open>
  The test \<open>/^[^\s@]+@[^\s@]+\.[^\s@]+$/\<close>: a non-empty part before the only \<open>@\<close>, and after
  it a part holding a dot that is neither its first nor its last character; no white space
  anywhere.
\<close>

definition email_regex :: "string \<Rightarrow> bool" where
  "email_regex s =
     (let a = takeWhile (\<lambda>c. c \<noteq> CHR ''@'') s;
          r = dropWhile (\<lambda>c. c \<noteq> CHR ''@'') s
      in a \<noteq> [] \<and> \<not> list_ex is_space a \<and> r \<noteq> []
         \<and> \<not> list_ex (\<lambda>c. is_space c \<or> c = CHR ''@'') (tl r)
         \<and> CHR ''.'' \<in> set (butlast (tl (tl r))))"

text \<open>The test \<open>/^[\d\s\-+()]{8,}$/\<close>.\<close>

definition phone_regex :: "string \<Rightarrow> bool" where
  "phone_regex s =
     (8 \<le> length s
      \<and> list_all (\<lambda>c. is_digit c \<or> is_space c \<or> c \<in> {CHR ''-'', CHR ''+'', CHR ''('', CHR '')''}) s)"

definition startsWith :: "string \<Rightarrow> string \<Rightarrow> bool" where
  "startsWith s p = (take (length p) s = p)"

text \<open>Decimal rendering of a count, as a template literal prints it.\<close>

definition digit_char :: "nat \<Rightarrow> char" where
  "digit_char k = char_of (of_char CHR ''0'' + k :: nat)"

fun string_of_nat :: "nat \<Rightarrow> string" where
  "string_of_nat n =
     (let q = n div 10
      in if q = 0 then [digit_char n] else string_of_nat q @ [digit_char (n mod 10)])"

declare string_of_nat.simps [simp del]

section \<open>Contacts and the store\<close>

record contact =
  c_user_id :: string
  c_name :: string
  c_email :: "string option"
  c_phone :: "string option"
  c_company :: "string option"
  c_position :: "string option"
  c_industry :: "string option"
  c_category :: "string option"
  c_address :: "string option"
  c_notes :: "string option"
  c_tags :: "string list"
  c_custom_fields :: "(string \<times> string) list"
  c_source :: string
  c_namecard_image :: "string option"
  c_status :: string

text \<open>
  The two tables the contact routes write: the rows of \<open>contacts\<close> in insertion order and
  \<open>profiles\<close> by user id.
\<close>

record db =
  db_contacts :: "contact list"
  db_profiles :: "string \<Rightarrow> profile option"

text \<open>
  \<open>from('contacts').insert(rows).select()\<close>. Whether the store accepts the insert is the
  store's business (\<open>ok\<close>); an accepted insert stores all the rows and returns them, a
  refused one stores nothing and returns an error with \<open>data\<close> null.
\<close>

definition insert_contacts :: "bool \<Rightarrow> db \<Rightarrow> contact list \<Rightarrow> (contact list) option \<times> db" where
  "insert_contacts ok d rows =
     (if ok then (Some rows, d\<lparr>db_contacts := db_contacts d @ rows\<rparr>) else (None, d))"

text \<open>
  Modelled from the spec: the stored procedure \<open>increment_contact_count\<close> is defined in the
  database, not in the repository. The spec's repository contract is
  \<open>atomicIncrement(counterField, delta) -> newValue\<close>: the counter of that user's profile grows
  by the amount, in one step. A missing counter counts as 0; a missing profile is left missing.
\<close>

definition increment_contact_count :: "db \<Rightarrow> string \<Rightarrow> int \<Rightarrow> db" where
  "increment_contact_count d userId amount =
     (case db_profiles d userId of
        None \<Rightarrow> d
      | Some p \<Rightarrow>
          d\<lparr>db_profiles := (db_profiles d)
                (userId := Some (p\<lparr>contact_count :=
                   Some ((case contact_count p of None \<Rightarrow> 0 | Some c \<Rightarrow> c) + amount)\<rparr>))\<rparr>)"

text \<open>
  \<open>authenticateToken\<close>: \<open>token_user\<close> is the user the bearer token verifies to, if any. The
  profile is read from the store at this point and travels with the request.
\<close>

definition authenticateToken :: "db \<Rightarrow> string option \<Rightarrow> (nat \<times> string) + request" where
  "authenticateToken d token_user =
     (case token_user of
        None \<Rightarrow> Inl (401, ''INVALID_TOKEN'')
      | Some uid \<Rightarrow> Inr \<lparr>req_user = Some uid, req_userProfile = db_profiles d uid\<rparr>)"

section \<open>Creating contacts (routes/contacts.js)\<close>

text \<open>A contact as a request body carries it: every field may be missing.\<close>

record contact_input =
  in_name :: "string option"
  in_email :: "string option"
  in_phone :: "string option"
  in_company :: "string option"
  in_position :: "string option"
  in_industry :: "string option"
  in_category :: "string option"
  in_address :: "string option"
  in_notes :: "string option"
  in_tags :: "string list option"
  in_custom_fields :: "(string \<times> string) list option"
  in_source :: "string option"

text \<open>\<open>x?.trim() || null\<close> and \<open>x || null\<close>.\<close>

definition trim_or_null :: "string option \<Rightarrow> string option" where
  "trim_or_null x = (case x of None \<Rightarrow> None | Some s \<Rightarrow> if trim s = [] then None else Some (trim s))"

definition or_null :: "string option \<Rightarrow> string option" where
  "or_null x = (if truthy x then x else None)"

definition or_default :: "string option \<Rightarrow> string \<Rightarrow> string" where
  "or_default x dflt = (case x of None \<Rightarrow> dflt | Some s \<Rightarrow> if s = [] then dflt else s)"

definition validateContact :: "contact_input \<Rightarrow> string list" where
  "validateContact data =
     (if \<not> truthy (in_name data) \<or> length (trim (or_default (in_name data) [])) < 2
      then [''Name is required (minimum 2 characters)''] else [])
     @ (if truthy (in_email data) \<and> \<not> email_regex (or_default (in_email data) [])
        then [''Invalid email format''] else [])
     @ (if truthy (in_phone data) \<and> \<not> phone_regex (or_default (in_phone data) [])
        then [''Invalid phone number format''] else [])"

definition new_contact_row :: "string \<Rightarrow> contact_input \<Rightarrow> contact" where
  "new_contact_row userId b =
     \<lparr>c_user_id = userId,
      c_name = trim (or_default (in_name b) []),
      c_email = (case in_email b of None \<Rightarrow> None
                 | Some e \<Rightarrow> if trim (toLowerCase e) = [] then None else Some (trim (toLowerCase e))),
      c_phone = trim_or_null (in_phone b),
      c_company = trim_or_null (in_company b),
      c_position = trim_or_null (in_position b),
      c_industry = or_null (in_industry b),
      c_category = Some (or_default (in_category b) ''Lead''),
      c_address = trim_or_null (in_address b),
      c_notes = trim_or_null (in_notes b),
      c_tags = (case in_tags b of None \<Rightarrow> [] | Some ts \<Rightarrow> ts),
      c_custom_fields = (case in_custom_fields b of None \<Rightarrow> [] | Some fs \<Rightarrow> fs),
      c_source = or_default (in_source b) ''manual'',
      c_namecard_image = None,
      c_status = ''active''\<rparr>"

text \<open>
  The handler of \<open>POST /api/contacts\<close>, entered after the quota check has passed.
  \<open>dup_found\<close> says whether the duplicate query returned a row, \<open>insert_ok\<close> whether the
  store accepts the insert. The increment is called without an amount, which adds 1.
\<close>

definition create_contact ::
  "db \<Rightarrow> string \<Rightarrow> contact_input \<Rightarrow> bool \<Rightarrow> bool \<Rightarrow> contact response \<times> db" where
  "create_contact d userId body dup_found insert_ok =
     (if validateContact body \<noteq> [] then (Failure 400 ''VALIDATION_ERROR'', d)
      else if (truthy (in_email body) \<or> truthy (in_phone body)) \<and> dup_found
      then (Failure 409 ''DUPLICATE_CONTACT'', d)
      else case insert_contacts insert_ok d [new_contact_row userId body] of
             (None, d1) \<Rightarrow> (Failure 500 ''INTERNAL_ERROR'', d1)
           | (Some data, d1) \<Rightarrow>
               (Success 201 (new_contact_row userId body), increment_contact_count d1 userId 1))"

text \<open>
  \<open>POST /api/contacts\<close> with its middleware chain: authentication, the per-minute creation
  rate limit (\<open>rate_limited\<close> is the verdict of that limiter), the quota check, the handler.
\<close>

definition post_contacts ::
  "db \<Rightarrow> string option \<Rightarrow> bool \<Rightarrow> contact_input \<Rightarrow> bool \<Rightarrow> bool \<Rightarrow> contact response \<times> db" where
  "post_contacts d token_user rate_limited body dup_found insert_ok =
     (case authenticateToken d token_user of
        Inl (st, code) \<Rightarrow> (Failure st code, d)
      | Inr req \<Rightarrow>
          if rate_limited then (Failure 429 ''RATE_LIMIT_EXCEEDED'', d)
          else case checkContactLimit req of
                 Inl (st, code) \<Rightarrow> (Failure st code, d)
               | Inr lim \<Rightarrow>
                   create_contact d (case req_user req of None \<Rightarrow> [] | Some u \<Rightarrow> u) body dup_found insert_ok)"

definition prepared_contact :: "string \<Rightarrow> contact_input \<Rightarrow> contact" where
  "prepared_contact userId c =
     \<lparr>c_user_id = userId,
      c_name = or_default (trim_or_null (in_name c)) ''Unknown'',
      c_email = (case in_email c of None \<Rightarrow> None
                 | Some e \<Rightarrow> if trim (toLowerCase e) = [] then None else Some (trim (toLowerCase e))),
      c_phone = trim_or_null (in_phone c),
      c_company = trim_or_null (in_company c),
      c_position = trim_or_null (in_position c),
      c_industry = or_null (in_industry c),
      c_category = Some (or_default (in_category c) ''Lead''),
      c_address = None,
      c_notes = trim_or_null (in_notes c),
      c_tags = (case in_tags c of None \<Rightarrow> [] | Some ts \<Rightarrow> ts),
      c_custom_fields = [],
      c_source = or_default (in_source c) ''bulk_import'',
      c_namecard_image = None,
      c_status = ''active''\<rparr>"

text \<open>
  The handler of \<open>POST /api/contacts/bulk\<close>. The body's \<open>contacts\<close> is \<open>None\<close> when it is not
  an array. \<open>req.contactLimit?.remaining || 0\<close> is read from what the quota check attached.
\<close>

definition bulk_create ::
  "db \<Rightarrow> string \<Rightarrow> contactLimit option \<Rightarrow> contact_input list option \<Rightarrow> bool
     \<Rightarrow> (contact list) response \<times> db" where
  "bulk_create d userId lim contacts insert_ok =
     (case contacts of
        None \<Rightarrow> (Failure 400 ''INVALID_INPUT'', d)
      | Some cs \<Rightarrow>
          if cs = [] then (Failure 400 ''INVALID_INPUT'', d)
          else if length cs > 500 then (Failure 400 ''TOO_MANY_CONTACTS'', d)
          else let remaining = (case lim of None \<Rightarrow> 0 | Some l \<Rightarrow> cl_remaining l)
               in if int (length cs) > remaining then (Failure 403 ''CONTACT_LIMIT_EXCEEDED'', d)
                  else case insert_contacts insert_ok d (map (prepared_contact userId) cs) of
                         (None, d1) \<Rightarrow> (Failure 500 ''INTERNAL_ERROR'', d1)
                       | (Some data, d1) \<Rightarrow>
                           (Success 201 data, increment_contact_count d1 userId (int (length data))))"

definition post_contacts_bulk ::
  "db \<Rightarrow> string option \<Rightarrow> contact_input list option \<Rightarrow> bool \<Rightarrow> (contact list) response \<times> db" where
  "post_contacts_bulk d token_user contacts insert_ok =
     (case authenticateToken d token_user of
        Inl (st, code) \<Rightarrow> (Failure st code, d)
      | Inr req \<Rightarrow>
          (case checkContactLimit req of
             Inl (st, code) \<Rightarrow> (Failure st code, d)
           | Inr lim \<Rightarrow>
               bulk_create d (case req_user req of None \<Rightarrow> [] | Some u \<Rightarrow> u) (Some lim) contacts insert_ok))"

section \<open>Spreadsheet rows and their normalisation (routes/uploads.js)\<close>

text \<open>
  A row as \<open>sheet_to_json\<close> returns it: the cells present, by column header, each cell given
  by its \<open>String(value)\<close> rendering.
\<close>

type_synonym row = "(string \<times> string) list"

record columnMappings =
  cm_name :: "string option"
  cm_email :: "string option"
  cm_phone :: "string option"
  cm_company :: "string option"
  cm_position :: "string option"
  cm_industry :: "string option"
  cm_notes :: "string option"

definition extractField :: "row \<Rightarrow> string option \<Rightarrow> string option" where
  "extractField r columnName =
     (if \<not> truthy columnName then None
      else case columnName of
             None \<Rightarrow> None
           | Some col \<Rightarrow> (case map_of r col of None \<Rightarrow> None | Some v \<Rightarrow> Some (trim v)))"

definition normalizeEmail :: "string option \<Rightarrow> string option" where
  "normalizeEmail email =
     (case email of
        None \<Rightarrow> None
      | Some e \<Rightarrow>
          if e = [] then None
          else let cleaned = trim (toLowerCase e)
               in if email_regex cleaned then Some cleaned else None)"

definition normalizePhone :: "string option \<Rightarrow> string option" where
  "normalizePhone phone =
     (case phone of
        None \<Rightarrow> None
      | Some p \<Rightarrow>
          if p = [] then None
          else let cleaned0 = filter (\<lambda>c. is_digit c \<or> c = CHR ''+'') p;
                   cleaned =
                     (if startsWith cleaned0 ''0'' then ''+60'' @ drop 1 cleaned0
                      else if startsWith cleaned0 ''60'' \<and> \<not> startsWith cleaned0 ''+'' then ''+'' @ cleaned0
                      else if \<not> startsWith cleaned0 ''+'' \<and> length cleaned0 \<ge> 9 then ''+60'' @ cleaned0
                      else cleaned0)
               in if length cleaned \<ge> 10 then Some cleaned else None)"

text \<open>
  The contact object the synchronous import builds from a row; \<open>defaultCategory\<close> comes from
  the request body.
\<close>

definition import_contact :: "string \<Rightarrow> columnMappings \<Rightarrow> string \<Rightarrow> row \<Rightarrow> contact" where
  "import_contact userId cm defaultCategory r =
     \<lparr>c_user_id = userId,
      c_name = or_default (extractField r (cm_name cm)) ''Unknown'',
      c_email = normalizeEmail (extractField r (cm_email cm)),
      c_phone = normalizePhone (extractField r (cm_phone cm)),
      c_company = extractField r (cm_company cm),
      c_position = extractField r (cm_position cm),
      c_industry = extractField r (cm_industry cm),
      c_category = Some defaultCategory,
      c_address = None,
      c_notes = extractField r (cm_notes cm),
      c_tags = [],
      c_custom_fields = [],
      c_source = ''spreadsheet_import'',
      c_namecard_image = None,
      c_status = ''active''\<rparr>"

text \<open>A contact with placeholder name and neither email nor phone carries nothing to identify it.\<close>

definition unidentifiable :: "contact \<Rightarrow> bool" where
  "unidentifiable c = (c_name c = ''Unknown'' \<and> \<not> truthy (c_email c) \<and> \<not> truthy (c_phone c))"

section \<open>Synchronous import (POST /api/uploads/spreadsheet/import)\<close>

text \<open>
  What the upload middleware and the spreadsheet parser hand to a handler: no file, a file
  the parser throws on, or the rows of the first sheet.
\<close>

datatype upload = NoFile | Unreadable string | Sheet "row list"

text \<open>
  The \<open>mappings\<close> field of the body after the optional \<open>JSON.parse\<close>: text that does not
  parse, no object at all, or the mapping object.
\<close>

datatype mappings_input = BadJson | NoMappings | Mappings columnMappings

record row_error =
  re_row :: nat
  re_reason :: string

record duplicate_detail =
  dd_name :: string
  dd_email :: "string option"
  dd_phone :: "string option"

text \<open>
  The transformation loop over the rows, \<open>i\<close> being the index of the first row of \<open>rows\<close> in
  the sheet. Without a mapping object, reading \<open>columnMappings.name\<close> throws inside the
  \<open>try\<close> of every row, so every row goes to the errors.
\<close>

fun transform_rows ::
  "string \<Rightarrow> columnMappings option \<Rightarrow> string \<Rightarrow> nat \<Rightarrow> row list \<Rightarrow> contact list \<times> row_error list" where
  "transform_rows userId cm cat i [] = ([], [])"
| "transform_rows userId cm cat i (r # rs) =
     (case transform_rows userId cm cat (Suc i) rs of
        (contacts, errors) \<Rightarrow>
          (case cm of
             None \<Rightarrow>
               (contacts,
                \<lparr>re_row = i + 2, re_reason = ''Cannot read properties of undefined (reading 'name')''\<rparr> # errors)
           | Some m \<Rightarrow>
               (let contact = import_contact userId m cat r
                in if unidentifiable contact
                   then (contacts, \<lparr>re_row = i + 2, re_reason = ''No identifiable information''\<rparr> # errors)
                   else (contact # contacts, errors))))"

text \<open>
  The duplicate test against the rows the look-up returned (\<open>existing\<close>, as pairs of email
  and phone).
\<close>

definition isDupe :: "(string option \<times> string option) list \<Rightarrow> contact \<Rightarrow> bool" where
  "isDupe existing c =
     ((truthy (c_email c) \<and> c_email c \<in> set (map fst existing))
      \<or> (truthy (c_phone c) \<and> c_phone c \<in> set (map snd existing)))"

record import_summary =
  imported :: nat
  total :: nat
  skipped :: int
  duplicates :: nat
  errors :: nat
  errorDetails :: "row_error list"
  duplicateDetails :: "duplicate_detail list"

text \<open>
  The handler, entered after authentication and the quota check. \<open>skipDuplicates\<close> is the
  truthiness of the body field (absent means true); \<open>existing\<close> is what the look-up for
  existing emails and phones returns (\<open>None\<close> when it returns no data).
\<close>

definition spreadsheet_import ::
  "db \<Rightarrow> string \<Rightarrow> contactLimit option \<Rightarrow> upload \<Rightarrow> mappings_input \<Rightarrow> bool \<Rightarrow> string
     \<Rightarrow> (string option \<times> string option) list option \<Rightarrow> bool
     \<Rightarrow> import_summary response \<times> db" where
  "spreadsheet_import d userId lim file mappings skipDuplicates defaultCategory existing insert_ok =
     (case file of
        NoFile \<Rightarrow> (Failure 400 ''NO_FILE'', d)
      | Unreadable msg \<Rightarrow> (Failure 500 ''IMPORT_ERROR'', d)
      | Sheet data \<Rightarrow>
          if mappings = BadJson then (Failure 500 ''IMPORT_ERROR'', d)
          else
            let remaining = (case lim of None \<Rightarrow> 0 | Some l \<Rightarrow> cl_remaining l)
            in if int (length data) > remaining then (Failure 403 ''CONTACT_LIMIT_EXCEEDED'', d)
               else
                 let cm = (case mappings of Mappings m \<Rightarrow> Some m | _ \<Rightarrow> None);
                     (contacts0, errs) = transform_rows userId cm defaultCategory 0 data;
                     check = (skipDuplicates \<and> contacts0 \<noteq> []);
                     ex = (case existing of None \<Rightarrow> [] | Some rows \<Rightarrow> rows);
                     dups = (if check then filter (isDupe ex) contacts0 else []);
                     contacts = (if check then filter (\<lambda>c. \<not> isDupe ex c) contacts0 else contacts0)
                 in if contacts = []
                    then (Success 200
                            \<lparr>imported = 0, total = length data,
                             skipped = int (length data) - int (length contacts) - int (length errs),
                             duplicates = length dups, errors = length errs,
                             errorDetails = take 10 errs,
                             duplicateDetails = take 10 (map (\<lambda>c. \<lparr>dd_name = c_name c, dd_email = c_email c, dd_phone = c_phone c\<rparr>) dups)\<rparr>,
                          d)
                    else case insert_contacts insert_ok d contacts of
                           (None, d1) \<Rightarrow> (Failure 500 ''IMPORT_ERROR'', d1)
                         | (Some insertedData, d1) \<Rightarrow>
                             (Success 200
                                \<lparr>imported = length insertedData, total = length data,
                                 skipped = int (length data) - int (length contacts) - int (length errs),
                                 duplicates = length dups, errors = length errs,
                                 errorDetails = take 10 errs,
                                 duplicateDetails = take 10 (map (\<lambda>c. \<lparr>dd_name = c_name c, dd_email = c_email c, dd_phone = c_phone c\<rparr>) dups)\<rparr>,
                              increment_contact_count d1 userId (int (length insertedData))))"

definition post_spreadsheet_import ::
  "db \<Rightarrow> string option \<Rightarrow> upload \<Rightarrow> mappings_input \<Rightarrow> bool \<Rightarrow> string
     \<Rightarrow> (string option \<times> string option) list option \<Rightarrow> bool
     \<Rightarrow> import_summary response \<times> db" where
  "post_spreadsheet_import d token_user file mappings skipDuplicates defaultCategory existing insert_ok =
     (case authenticateToken d token_user of
        Inl (st, code) \<Rightarrow> (Failure st code, d)
      | Inr req \<Rightarrow>
          (case checkContactLimit req of
             Inl (st, code) \<Rightarrow> (Failure st code, d)
           | Inr lim \<Rightarrow>
               spreadsheet_import d (case req_user req of None \<Rightarrow> [] | Some u \<Rightarrow> u) (Some lim) file
                 mappings skipDuplicates defaultCategory existing insert_ok))"

section \<open>Upload jobs (routes/uploads.js)\<close>

datatype job_status = Processing | Completed | Failed

text \<open>What the business-card reader returns as \<open>structured\<close>.\<close>

record extracted_card =
  ex_name :: "string option"
  ex_email :: "string option"
  ex_phone :: "string option"
  ex_company :: "string option"
  ex_position :: "string option"
  ex_address :: "string option"
  ex_raw_text :: "string option"
  ex_confidence :: "string option"

datatype job_result =
    Imported nat nat "int option"
  | CardContact contact extracted_card

text \<open>
  An entry of the \<open>processingJobs\<close> map. \<open>Imported imported total skipped\<close> is the result of
  a spreadsheet job, \<open>CardContact\<close> that of a business-card job. \<open>createdAt\<close> is the clock
  reading behind the ISO string; it is absent when the entry was written with
  \<open>createdAt: undefined\<close>.
\<close>

record job =
  j_status :: job_status
  j_progress :: nat
  j_message :: string
  j_result :: "job_result option"
  j_error :: "string option"
  j_createdAt :: "int option"

type_synonym jobs = "string \<rightharpoonup> job"

text \<open>The entry both upload routes store under a fresh job id before they start the work.\<close>

definition create_job :: "jobs \<Rightarrow> string \<Rightarrow> string \<Rightarrow> int \<Rightarrow> jobs" where
  "create_job js jobId msg now =
     js(jobId \<mapsto> \<lparr>j_status = Processing, j_progress = 0, j_message = msg, j_result = None,
                     j_error = None, j_createdAt = Some now\<rparr>)"

text \<open>
  \<open>processingJobs.set(jobId, {..., createdAt: processingJobs.get(jobId).createdAt})\<close>: reading
  \<open>createdAt\<close> of an entry that is no longer in the map throws a \<open>TypeError\<close>.
\<close>

definition set_keeping_created :: "jobs \<Rightarrow> string \<Rightarrow> (int option \<Rightarrow> job) \<Rightarrow> string + jobs" where
  "set_keeping_created js jobId mk =
     (case js jobId of
        None \<Rightarrow> Inl ''Cannot read properties of undefined (reading 'createdAt')''
      | Some j \<Rightarrow> Inr (js(jobId \<mapsto> mk (j_createdAt j))))"

text \<open>The \<open>catch\<close> block of both workers, with \<open>processingJobs.get(jobId)?.createdAt\<close>.\<close>

definition processing_failed :: "jobs \<Rightarrow> string \<Rightarrow> string \<Rightarrow> jobs" where
  "processing_failed js jobId msg =
     js(jobId \<mapsto> \<lparr>j_status = Failed, j_progress = 100, j_message = ''Processing failed'',
                     j_result = None, j_error = Some msg,
                     j_createdAt = (case js jobId of None \<Rightarrow> None | Some j \<Rightarrow> j_createdAt j)\<rparr>)"

definition processing_job :: "nat \<Rightarrow> string \<Rightarrow> int option \<Rightarrow> job" where
  "processing_job p msg created =
     \<lparr>j_status = Processing, j_progress = p, j_message = msg, j_result = None, j_error = None,
      j_createdAt = created\<rparr>"

definition failed_job :: "string \<Rightarrow> string \<Rightarrow> int option \<Rightarrow> job" where
  "failed_job msg err created =
     \<lparr>j_status = Failed, j_progress = 100, j_message = msg, j_result = None, j_error = Some err,
      j_createdAt = created\<rparr>"

definition completed_job :: "string \<Rightarrow> job_result \<Rightarrow> int option \<Rightarrow> job" where
  "completed_job msg res created =
     \<lparr>j_status = Completed, j_progress = 100, j_message = msg, j_result = Some res, j_error = None,
      j_createdAt = created\<rparr>"

subsection \<open>The spreadsheet worker\<close>

text \<open>
  \<open>processSpreadsheet\<close> runs in three stretches, separated by the points where it waits for
  the analysis and for the store; other requests and the sweep can run in between. Each
  stretch takes the job map as it finds it. A stretch returns what the next one needs, or
  \<open>None\<close> when the worker has ended.

  First stretch, run inside the upload request: the entry is rewritten with a new
  \<open>createdAt\<close>, the file is parsed, the row count is reported.
\<close>

definition processSpreadsheet_read :: "jobs \<Rightarrow> string \<Rightarrow> upload \<Rightarrow> int \<Rightarrow> jobs \<times> row list option" where
  "processSpreadsheet_read js jobId file now =
     (let js1 = js(jobId \<mapsto> processing_job 10 ''Reading file...'' (Some now))
      in case file of
           NoFile \<Rightarrow> (processing_failed js1 jobId ''Cannot read properties of undefined (reading 'buffer')'', None)
         | Unreadable msg \<Rightarrow> (processing_failed js1 jobId msg, None)
         | Sheet data \<Rightarrow>
             (case set_keeping_created js1 jobId
                     (processing_job 30 (''Found '' @ string_of_nat (length data) @ '' rows. Analyzing...'')) of
                Inl err \<Rightarrow> (processing_failed js1 jobId err, None)
              | Inr js2 \<Rightarrow> (js2, Some data)))"

text \<open>What \<open>analyzeSpreadsheetData\<close> answers: a failure with its message, or an analysis, whose
  \<open>columnMappings\<close> may be missing.\<close>

datatype analysis = AnalysisFailed string | Analysis "columnMappings option"

definition worker_contact :: "string \<Rightarrow> columnMappings \<Rightarrow> row \<Rightarrow> contact" where
  "worker_contact userId cm r =
     \<lparr>c_user_id = userId,
      c_name = or_default (extractField r (cm_name cm)) ''Unknown'',
      c_email = normalizeEmail (extractField r (cm_email cm)),
      c_phone = normalizePhone (extractField r (cm_phone cm)),
      c_company = extractField r (cm_company cm),
      c_position = extractField r (cm_position cm),
      c_industry = extractField r (cm_industry cm),
      c_category = Some ''Lead'',
      c_address = None,
      c_notes = None,
      c_tags = [],
      c_custom_fields = [],
      c_source = ''spreadsheet_import'',
      c_namecard_image = None,
      c_status = ''active''\<rparr>"

text \<open>
  \<open>contacts.slice(0, remaining)\<close> with \<open>remaining = contactLimit?.remaining || Infinity\<close>: a
  missing or zero \<open>remaining\<close> means no bound; a negative end counts from the end of the array.
\<close>

definition slice_remaining :: "contactLimit option \<Rightarrow> 'a list \<Rightarrow> 'a list" where
  "slice_remaining lim xs =
     (case lim of
        None \<Rightarrow> xs
      | Some l \<Rightarrow>
          if cl_remaining l = 0 then xs
          else if cl_remaining l > 0 then take (nat (cl_remaining l)) xs
          else take (nat (int (length xs) + cl_remaining l)) xs)"

text \<open>
  Second stretch, after the analysis has answered: the contacts are built and cut to the
  remaining quota. The stretch ends the job on a failed analysis or when nothing is left to
  insert; otherwise it hands the rows to insert to the store.
\<close>

definition processSpreadsheet_analysed ::
  "jobs \<Rightarrow> string \<Rightarrow> string \<Rightarrow> row list \<Rightarrow> analysis \<Rightarrow> contactLimit option \<Rightarrow> jobs \<times> contact list option" where
  "processSpreadsheet_analysed js jobId userId data an lim =
     (case an of
        AnalysisFailed err \<Rightarrow>
          (case set_keeping_created js jobId (failed_job ''Failed to analyze spreadsheet'' err) of
             Inl e \<Rightarrow> (processing_failed js jobId e, None)
           | Inr js1 \<Rightarrow> (js1, None))
      | Analysis cm \<Rightarrow>
          (case set_keeping_created js jobId (processing_job 50 ''Importing contacts...'') of
             Inl e \<Rightarrow> (processing_failed js jobId e, None)
           | Inr js1 \<Rightarrow>
               (case cm of
                  None \<Rightarrow>
                    if data \<noteq> []
                    then (processing_failed js1 jobId ''Cannot read properties of undefined (reading 'name')'', None)
                    else (case set_keeping_created js1 jobId
                                 (completed_job ''No valid contacts found to import'' (Imported 0 (length data) None)) of
                            Inl e \<Rightarrow> (processing_failed js1 jobId e, None)
                          | Inr js2 \<Rightarrow> (js2, None))
                | Some m \<Rightarrow>
                    let contacts = filter (\<lambda>c. \<not> unidentifiable c) (map (worker_contact userId m) data);
                        toInsert = slice_remaining lim contacts
                    in if toInsert \<noteq> [] then (js1, Some toInsert)
                       else (case set_keeping_created js1 jobId
                                    (completed_job ''No valid contacts found to import'' (Imported 0 (length data) None)) of
                               Inl e \<Rightarrow> (processing_failed js1 jobId e, None)
                             | Inr js2 \<Rightarrow> (js2, None)))))"

text \<open>
  Third stretch: the insert, the counter increment and the final entry. A refused insert
  returns \<open>data: null\<close>, and reading its length throws.
\<close>

definition processSpreadsheet_insert ::
  "jobs \<Rightarrow> db \<Rightarrow> string \<Rightarrow> string \<Rightarrow> nat \<Rightarrow> contact list \<Rightarrow> bool \<Rightarrow> jobs \<times> db" where
  "processSpreadsheet_insert js d jobId userId total_rows toInsert insert_ok =
     (case insert_contacts insert_ok d toInsert of
        (None, d1) \<Rightarrow> (processing_failed js jobId ''Cannot read properties of null (reading 'length')'', d1)
      | (Some inserted, d1) \<Rightarrow>
          (let d2 = increment_contact_count d1 userId (int (length inserted))
           in case set_keeping_created js jobId
                     (completed_job (''Successfully imported '' @ string_of_nat (length inserted) @ '' contacts'')
                        (Imported (length inserted) total_rows (Some (int total_rows - int (length toInsert))))) of
                Inl e \<Rightarrow> (processing_failed js jobId e, d2)
              | Inr js1 \<Rightarrow> (js1, d2)))"

text \<open>The three stretches run without anything in between.\<close>

definition processSpreadsheet ::
  "jobs \<Rightarrow> db \<Rightarrow> string \<Rightarrow> string \<Rightarrow> upload \<Rightarrow> contactLimit option \<Rightarrow> int \<Rightarrow> analysis \<Rightarrow> bool
     \<Rightarrow> jobs \<times> db" where
  "processSpreadsheet js d jobId userId file lim now an insert_ok =
     (case processSpreadsheet_read js jobId file now of
        (js1, None) \<Rightarrow> (js1, d)
      | (js1, Some data) \<Rightarrow>
          (case processSpreadsheet_analysed js1 jobId userId data an lim of
             (js2, None) \<Rightarrow> (js2, d)
           | (js2, Some toInsert) \<Rightarrow>
               processSpreadsheet_insert js2 d jobId userId (length data) toInsert insert_ok))"

text \<open>
  \<open>POST /api/uploads/spreadsheet\<close>: authentication, the upload rate limit, the quota check,
  then the handler, which stores the job and starts the worker. The response is sent when the
  worker first waits; the model returns the response together with the state the finished
  worker leaves.
\<close>

definition post_spreadsheet ::
  "jobs \<Rightarrow> db \<Rightarrow> string option \<Rightarrow> bool \<Rightarrow> upload \<Rightarrow> string \<Rightarrow> int \<Rightarrow> analysis \<Rightarrow> bool
     \<Rightarrow> string response \<times> jobs \<times> db" where
  "post_spreadsheet js d token_user rate_limited file jobId now an insert_ok =
     (case authenticateToken d token_user of
        Inl (st, code) \<Rightarrow> (Failure st code, js, d)
      | Inr req \<Rightarrow>
          if rate_limited then (Failure 429 ''RATE_LIMIT_EXCEEDED'', js, d)
          else case checkContactLimit req of
                 Inl (st, code) \<Rightarrow> (Failure st code, js, d)
               | Inr lim \<Rightarrow>
                   if file = NoFile then (Failure 400 ''NO_FILE'', js, d)
                   else (Success 202 jobId,
                         processSpreadsheet (create_job js jobId ''Starting file processing...'' now) d jobId
                           (case req_user req of None \<Rightarrow> [] | Some u \<Rightarrow> u) file (Some lim) now an insert_ok))"

text \<open>
  \<open>POST /api/uploads/spreadsheet\<close> up to the moment the request is answered. The handler
  stores the job and calls the worker, which runs its first stretch before the handler goes
  on to send the response. With the response and the job map come the user, the quota
  decision and the rows the worker holds while it waits for the analysis, or \<open>None\<close> when the
  worker has already ended.
\<close>

definition post_spreadsheet_answered ::
  "jobs \<Rightarrow> db \<Rightarrow> string option \<Rightarrow> bool \<Rightarrow> upload \<Rightarrow> string \<Rightarrow> int
     \<Rightarrow> string response \<times> jobs \<times> (string \<times> contactLimit \<times> row list) option" where
  "post_spreadsheet_answered js d token_user rate_limited file jobId now =
     (case authenticateToken d token_user of
        Inl (st, code) \<Rightarrow> (Failure st code, js, None)
      | Inr req \<Rightarrow>
          if rate_limited then (Failure 429 ''RATE_LIMIT_EXCEEDED'', js, None)
          else case checkContactLimit req of
                 Inl (st, code) \<Rightarrow> (Failure st code, js, None)
               | Inr lim \<Rightarrow>
                   if file = NoFile then (Failure 400 ''NO_FILE'', js, None)
                   else (case processSpreadsheet_read
                                (create_job js jobId ''Starting file processing...'' now) jobId file now of
                           (js1, None) \<Rightarrow> (Success 202 jobId, js1, None)
                         | (js1, Some data) \<Rightarrow>
                             (Success 202 jobId, js1,
                              Some ((case req_user req of None \<Rightarrow> [] | Some u \<Rightarrow> u), lim, data))))"

subsection \<open>The business-card worker\<close>

text \<open>
  What \<open>extractNamecardText\<close> answers: a failure with its message, or a success whose
  \<open>structured\<close> part is missing when the reply held no JSON.
\<close>

datatype extraction = ExtractionFailed string | Extraction "extracted_card option"

text \<open>First stretch of \<open>processNamecard\<close>, run inside the upload request.\<close>

definition processNamecard_start :: "jobs \<Rightarrow> string \<Rightarrow> jobs \<times> bool" where
  "processNamecard_start js jobId =
     (case set_keeping_created js jobId (processing_job 30 ''Extracting text from image...'') of
        Inl e \<Rightarrow> (processing_failed js jobId e, False)
      | Inr js1 \<Rightarrow> (js1, True))"

text \<open>Second stretch, after the reader has answered.\<close>

definition processNamecard_extracted :: "jobs \<Rightarrow> string \<Rightarrow> extraction \<Rightarrow> jobs \<times> extracted_card option option" where
  "processNamecard_extracted js jobId ex =
     (case ex of
        ExtractionFailed err \<Rightarrow>
          (case set_keeping_created js jobId (failed_job ''Failed to extract text'' err) of
             Inl e \<Rightarrow> (processing_failed js jobId e, None)
           | Inr js1 \<Rightarrow> (js1, None))
      | Extraction structured \<Rightarrow>
          (case set_keeping_created js jobId (processing_job 70 ''Saving contact...'') of
             Inl e \<Rightarrow> (processing_failed js jobId e, None)
           | Inr js1 \<Rightarrow> (js1, Some structured)))"

definition namecard_contact :: "string \<Rightarrow> string \<Rightarrow> extracted_card \<Rightarrow> contact" where
  "namecard_contact userId jobId extracted =
     \<lparr>c_user_id = userId,
      c_name = or_default (ex_name extracted) ''Unknown'',
      c_email = normalizeEmail (ex_email extracted),
      c_phone = normalizePhone (ex_phone extracted),
      c_company = ex_company extracted,
      c_position = ex_position extracted,
      c_industry = None,
      c_category = None,
      c_address = ex_address extracted,
      c_notes = ex_raw_text extracted,
      c_tags = [],
      c_custom_fields = [],
      c_source = ''namecard_scan'',
      c_namecard_image = Some (''namecards/'' @ userId @ ''/'' @ jobId @ ''.jpg''),
      c_status = ''active''\<rparr>"

text \<open>
  Third stretch: the image upload, the insert of the one contact, the counter increment and
  the final entry. No quota is consulted on this path.
\<close>

definition processNamecard_save ::
  "jobs \<Rightarrow> db \<Rightarrow> string \<Rightarrow> string \<Rightarrow> extracted_card option \<Rightarrow> bool \<Rightarrow> jobs \<times> db" where
  "processNamecard_save js d jobId userId structured insert_ok =
     (case structured of
        None \<Rightarrow> (processing_failed js jobId ''Cannot read properties of null (reading 'name')'', d)
      | Some extracted \<Rightarrow>
          (case insert_contacts insert_ok d [namecard_contact userId jobId extracted] of
             (None, d1) \<Rightarrow> (processing_failed js jobId ''insert failed'', d1)
           | (Some rows, d1) \<Rightarrow>
               (let d2 = increment_contact_count d1 userId 1
                in case set_keeping_created js jobId
                          (completed_job ''Contact created successfully''
                             (CardContact (namecard_contact userId jobId extracted) extracted)) of
                     Inl e \<Rightarrow> (processing_failed js jobId e, d2)
                   | Inr js1 \<Rightarrow> (js1, d2))))"

definition processNamecard ::
  "jobs \<Rightarrow> db \<Rightarrow> string \<Rightarrow> string \<Rightarrow> extraction \<Rightarrow> bool \<Rightarrow> jobs \<times> db" where
  "processNamecard js d jobId userId ex insert_ok =
     (case processNamecard_start js jobId of
        (js1, False) \<Rightarrow> (js1, d)
      | (js1, True) \<Rightarrow>
          (case processNamecard_extracted js1 jobId ex of
             (js2, None) \<Rightarrow> (js2, d)
           | (js2, Some structured) \<Rightarrow> processNamecard_save js2 d jobId userId structured insert_ok))"

text \<open>
  \<open>POST /api/uploads/namecard\<close>: authentication and the upload rate limit, then the handler.
  The quota check is not in this chain.
\<close>

definition post_namecard ::
  "jobs \<Rightarrow> db \<Rightarrow> string option \<Rightarrow> bool \<Rightarrow> bool \<Rightarrow> string \<Rightarrow> int \<Rightarrow> extraction \<Rightarrow> bool
     \<Rightarrow> string response \<times> jobs \<times> db" where
  "post_namecard js d token_user rate_limited has_file jobId now ex insert_ok =
     (case authenticateToken d token_user of
        Inl (st, code) \<Rightarrow> (Failure st code, js, d)
      | Inr req \<Rightarrow>
          if rate_limited then (Failure 429 ''RATE_LIMIT_EXCEEDED'', js, d)
          else if \<not> has_file then (Failure 400 ''NO_FILE'', js, d)
          else (Success 202 jobId,
                processNamecard (create_job js jobId ''Processing business card...'' now) d jobId
                  (case req_user req of None \<Rightarrow> [] | Some u \<Rightarrow> u) ex insert_ok))"

subsection \<open>Status look-up and the sweep\<close>

text \<open>\<open>GET /api/uploads/status/:jobId\<close>: the caller must be authenticated; the entry is looked
  up by the job id alone.\<close>

definition get_status :: "jobs \<Rightarrow> string option \<Rightarrow> string \<Rightarrow> (string \<times> job) response" where
  "get_status js token_user jobId =
     (case token_user of
        None \<Rightarrow> Failure 401 ''INVALID_TOKEN''
      | Some uid \<Rightarrow>
          (case js jobId of
             None \<Rightarrow> Failure 404 ''JOB_NOT_FOUND''
           | Some j \<Rightarrow> Success 200 (jobId, j)))"

definition retention_ms :: int where
  "retention_ms = 60 * 60 * 1000"

definition sweep_interval_ms :: int where
  "sweep_interval_ms = 15 * 60 * 1000"

text \<open>
  The body of the timer: every entry whose \<open>createdAt\<close> lies before \<open>now - 1h\<close> is deleted.
  An entry without \<open>createdAt\<close> compares as an invalid date, which is before nothing.
\<close>

definition sweep :: "jobs \<Rightarrow> int \<Rightarrow> jobs" where
  "sweep js now =
     (\<lambda>jobId. case js jobId of
                 None \<Rightarrow> None
               | Some j \<Rightarrow> (case j_createdAt j of
                              None \<Rightarrow> Some j
                            | Some c \<Rightarrow> if c < now - retention_ms then None else Some j))"

text \<open>The timer fires every 15 minutes after the module is loaded at \<open>start\<close>.\<close>

definition sweep_time :: "int \<Rightarrow> nat \<Rightarrow> int" where
  "sweep_time start k = start + int (Suc k) * sweep_interval_ms"

text \<open>
  A job entry is terminal when it is completed with a result or failed with an error, in both
  cases at progress 100.
\<close>

definition terminal_job :: "job \<Rightarrow> bool" where
  "terminal_job j =
     ((j_status j = Completed \<and> j_progress j = 100 \<and> j_result j \<noteq> None)
      \<or> (j_status j = Failed \<and> j_progress j = 100 \<and> j_error j \<noteq> None))"

text \<open>A business card as the reader returns it, used as a worked instance.\<close>

definition example_card :: extracted_card where
  "example_card =
     \<lparr>ex_name = Some ''Tan Mei Ling'', ex_email = Some ''Mei@Example.com'', ex_phone = Some ''012-345 6789'',
      ex_company = Some ''Acme'', ex_position = None, ex_address = None,
      ex_raw_text = Some ''Tan Mei Ling Acme'', ex_confidence = Some ''0.9''\<rparr>"

text \<open>What a stretch of a worker leaves under the job id: a terminal entry when the worker
  has ended, an entry in \<open>processing\<close> when it goes on.\<close>

definition left_by_stretch :: "jobs \<Rightarrow> string \<Rightarrow> bool \<Rightarrow> bool" where
  "left_by_stretch js jobId goes_on =
     (\<exists>j. js jobId = Some j \<and> (if goes_on then j_status j = Processing else terminal_job j))"

text \<open>A job map holding one job, created at clock reading 0, used as a worked instance.\<close>

definition example_jobs :: jobs where
  "example_jobs = create_job Map.empty ''job-1'' ''Starting file processing...'' 0"

section \<open>Row accounting of the synchronous import\<close>

text \<open>
  The specification's view of the import: every row has one outcome. A row is an error when
  no mapping object is there to read it with or when it yields nothing to identify a contact;
  otherwise it is a duplicate when duplicates are skipped and its email or phone is among the
  existing ones; otherwise it is imported.
\<close>

datatype row_outcome = RowImported | RowDuplicate | RowError

definition outcome_of ::
  "string \<Rightarrow> columnMappings option \<Rightarrow> string \<Rightarrow> bool \<Rightarrow> (string option \<times> string option) list \<Rightarrow> row
     \<Rightarrow> row_outcome" where
  "outcome_of userId cm cat skipDuplicates ex r =
     (case cm of
        None \<Rightarrow> RowError
      | Some m \<Rightarrow>
          if unidentifiable (import_contact userId m cat r) then RowError
          else if skipDuplicates \<and> isDupe ex (import_contact userId m cat r) then RowDuplicate
          else RowImported)"

text \<open>The rows the transformation loop reports as errors.\<close>

definition row_is_error :: "string \<Rightarrow> columnMappings option \<Rightarrow> string \<Rightarrow> row \<Rightarrow> bool" where
  "row_is_error userId cm cat r =
     (case cm of None \<Rightarrow> True | Some m \<Rightarrow> unidentifiable (import_contact userId m cat r))"

definition count_outcome ::
  "row_outcome \<Rightarrow> string \<Rightarrow> columnMappings option \<Rightarrow> string \<Rightarrow> bool
     \<Rightarrow> (string option \<times> string option) list \<Rightarrow> row list \<Rightarrow> nat" where
  "count_outcome out userId cm cat skipDuplicates ex rows =
     length (filter (\<lambda>r. outcome_of userId cm cat skipDuplicates ex r = out) rows)"

text \<open>The mapping object the transformation loop works with.\<close>

definition mapping_object :: "mappings_input \<Rightarrow> columnMappings option" where
  "mapping_object mappings = (case mappings of Mappings m \<Rightarrow> Some m | _ \<Rightarrow> None)"

text \<open>
  Five rows, the second of which has the email of an existing contact, with the mapping that
  reads them; a tenant on the base plan one contact below its ceiling. Used as worked
  instances.
\<close>

definition example_mapping :: columnMappings where
  "example_mapping =
     \<lparr>cm_name = Some ''Name'', cm_email = Some ''Email'', cm_phone = Some ''Phone'',
      cm_company = None, cm_position = None, cm_industry = None, cm_notes = None\<rparr>"

definition example_rows :: "row list" where
  "example_rows =
     [[(''Name'', ''Ali''), (''Email'', ''ali@example.com'')],
      [(''Name'', ''Bala''), (''Email'', ''bala@example.com'')],
      [(''Name'', ''Chong''), (''Phone'', ''0123456789'')],
      [(''Name'', ''Devi''), (''Email'', ''devi@example.com'')],
      [(''Name'', ''Eng''), (''Email'', ''eng@example.com'')]]"

definition example_existing :: "(string option \<times> string option) list" where
  "example_existing = [(Some ''bala@example.com'', None)]"

definition example_db :: db where
  "example_db =
     \<lparr>db_contacts = [],
      db_profiles = (\<lambda>u. if u = ''u1''
                          then Some \<lparr>subscription_plan = Some ''base'', contact_count = Some 249999\<rparr>
                          else None)\<rparr>"

text \<open>The contacts the background worker builds from a sheet and keeps as identifiable.\<close>

definition worker_valid :: "string \<Rightarrow> columnMappings \<Rightarrow> row list \<Rightarrow> contact list" where
  "worker_valid userId m data = filter (\<lambda>c. \<not> unidentifiable c) (map (worker_contact userId m) data)"

text \<open>The quota decision of the worked instance, and a contact as a request body carries it.\<close>

definition example_limit :: contactLimit where
  "example_limit = \<lparr>cl_current = 249999, cl_max = 250000, cl_remaining = 1\<rparr>"

definition example_input :: contact_input where
  "example_input =
     \<lparr>in_name = Some ''Farah'', in_email = Some ''farah@example.com'', in_phone = None,
      in_company = None, in_position = None, in_industry = None, in_category = None,
      in_address = None, in_notes = None, in_tags = None, in_custom_fields = None,
      in_source = None\<rparr>"

text \<open>A tenant on the free plan who already holds the 50 contacts of that plan.\<close>

definition full_db :: db where
  "full_db =
     \<lparr>db_contacts = [],
      db_profiles = (\<lambda>u. if u = ''u2''
                          then Some \<lparr>subscription_plan = Some ''free'', contact_count = Some 50\<rparr>
                          else None)\<rparr>"

text \<open>
  The headroom of a user in a store, \<open>max(0, max - current)\<close>, and the number of contact rows a
  request has added to the store.
\<close>

definition quota_room :: "db \<Rightarrow> string \<Rightarrow> int" where
  "quota_room d userId =
     max 0 (maxContacts_of (userPlan_of (db_profiles d userId)) - currentCount_of (db_profiles d userId))"

definition rows_added :: "db \<Rightarrow> db \<Rightarrow> int" where
  "rows_added d d' = int (length (db_contacts d')) - int (length (db_contacts d))"

text \<open>
  A worked instance: the user of \<open>example_db\<close> uploads the five example rows at clock reading
  0 and is answered; the timer, started at 0, fires for the fifth time 75 minutes later, while
  the worker still waits for the analysis; then the analysis arrives and the worker goes on.
\<close>

definition answered_jobs :: jobs where
  "answered_jobs =
     fst (snd (post_spreadsheet_answered Map.empty example_db (Some ''u1'') False (Sheet example_rows) ''job-1'' 0))"

definition swept_jobs :: jobs where
  "swept_jobs = sweep answered_jobs (sweep_time 0 4)"

definition resumed_jobs :: jobs where
  "resumed_jobs =
     fst (processSpreadsheet_analysed swept_jobs ''job-1'' ''u1'' example_rows
            (Analysis (Some example_mapping)) (Some example_limit))"

section \<open>Concurrent contact creation\<close>

text \<open>
  Several \<open>POST /api/contacts\<close> requests of one user in flight at once. Node runs one
  request until it waits for the store and may then run any other; a request therefore
  advances in stretches, each ending with one operation on the store, and the stretches of
  different requests interleave freely:
  \<^item> \<open>authenticateToken\<close> reads the profile, counter included, into the request;
  \<^item> the rate limiter and \<open>checkContactLimit\<close> decide, the latter on that copy; the handler
    validates the body and, when it carries an e-mail or a phone, asks the store for
    duplicates, otherwise it inserts the contact at once;
  \<^item> with the answer to the duplicate query the handler refuses or inserts the contact;
  \<^item> after the insert the handler calls \<open>increment_contact_count\<close>.

  A request brings its body, the verdict of the creation rate limiter on it, and whether the
  store accepts its insert.
\<close>

record creation =
  cr_body :: contact_input
  cr_rate_limited :: bool
  cr_insert_ok :: bool

text \<open>
  The duplicate query selects the contacts of the user under a filter that the handler
  writes as text from the e-mail and the phone of the body (\<open>email.eq.\<close>, \<open>phone.ilike.\<close>)
  and the store evaluates; \<open>matches email phone row\<close> is the store's verdict on a row. The
  query has found duplicates when it returns a row.
\<close>

type_synonym duplicate_filter = "string option \<Rightarrow> string option \<Rightarrow> contact \<Rightarrow> bool"

definition duplicate_rows :: "duplicate_filter \<Rightarrow> string \<Rightarrow> contact_input \<Rightarrow> contact list \<Rightarrow> contact list" where
  "duplicate_rows matches uid body rows =
     filter (\<lambda>row. c_user_id row = uid \<and> matches (in_email body) (in_phone body) row) rows"

datatype phase =
    Arrived
  | Authenticated request
  | Queried "contact list"
  | Inserted
  | Rejected nat string
  | Committed

text \<open>The insert of the handler and the phase it leads to.\<close>

definition insert_step :: "string \<Rightarrow> creation \<Rightarrow> db \<Rightarrow> db \<times> phase" where
  "insert_step uid c d =
     (case insert_contacts (cr_insert_ok c) d [new_contact_row uid (cr_body c)] of
        (None, d1) \<Rightarrow> (d1, Rejected 500 ''INTERNAL_ERROR'')
      | (Some data, d1) \<Rightarrow> (d1, Inserted))"

definition step_request :: "duplicate_filter \<Rightarrow> string \<Rightarrow> creation \<Rightarrow> db \<Rightarrow> phase \<Rightarrow> db \<times> phase" where
  "step_request matches uid c d p =
     (case p of
        Arrived \<Rightarrow>
          (case authenticateToken d (Some uid) of
             Inl (st, code) \<Rightarrow> (d, Rejected st code)
           | Inr req \<Rightarrow> (d, Authenticated req))
      | Authenticated req \<Rightarrow>
          if cr_rate_limited c then (d, Rejected 429 ''RATE_LIMIT_EXCEEDED'')
          else (case checkContactLimit req of
                  Inl (st, code) \<Rightarrow> (d, Rejected st code)
                | Inr lim \<Rightarrow>
                    if validateContact (cr_body c) \<noteq> [] then (d, Rejected 400 ''VALIDATION_ERROR'')
                    else if truthy (in_email (cr_body c)) \<or> truthy (in_phone (cr_body c))
                    then (d, Queried (duplicate_rows matches uid (cr_body c) (db_contacts d)))
                    else insert_step uid c d)
      | Queried found \<Rightarrow>
          if found \<noteq> [] then (d, Rejected 409 ''DUPLICATE_CONTACT'')
          else insert_step uid c d
      | Inserted \<Rightarrow> (increment_contact_count d uid 1, Committed)
      | Rejected st code \<Rightarrow> (d, Rejected st code)
      | Committed \<Rightarrow> (d, Committed))"

text \<open>The store and the phase of each request in flight.\<close>

record world =
  w_db :: db
  w_phases :: "phase list"

definition step :: "duplicate_filter \<Rightarrow> string \<Rightarrow> creation list \<Rightarrow> nat \<Rightarrow> world \<Rightarrow> world" where
  "step matches uid reqs i w =
     (if i < length (w_phases w) \<and> i < length reqs
      then \<lparr>w_db = fst (step_request matches uid (reqs ! i) (w_db w) (w_phases w ! i)),
            w_phases = (w_phases w)[i := snd (step_request matches uid (reqs ! i) (w_db w) (w_phases w ! i))]\<rparr>
      else w)"

text \<open>A schedule names, stretch by stretch, the request that advances next.\<close>

fun run_schedule :: "duplicate_filter \<Rightarrow> string \<Rightarrow> creation list \<Rightarrow> nat list \<Rightarrow> world \<Rightarrow> world" where
  "run_schedule matches uid reqs [] w = w"
| "run_schedule matches uid reqs (i # sched) w = run_schedule matches uid reqs sched (step matches uid reqs i w)"

text \<open>The requests as they arrive, over a store.\<close>

definition arrivals :: "db \<Rightarrow> creation list \<Rightarrow> world" where
  "arrivals d reqs = \<lparr>w_db = d, w_phases = replicate (length reqs) Arrived\<rparr>"

text \<open>The schedule that serves the requests \<open>a, a + 1, ...\<close> one after another, each to its end.\<close>

definition one_by_one :: "nat \<Rightarrow> nat \<Rightarrow> nat list" where
  "one_by_one a n = concat (map (\<lambda>i. [i, i, i, i]) [a ..< a + n])"

text \<open>
  The schedule that gives the requests \<open>a, a + 1, ...\<close>, already authenticated, their
  remaining stretches in turn; and the schedule on which all \<open>n\<close> requests are
  authenticated, and so have read the counter, before any of them goes on.
\<close>

definition in_turn :: "nat \<Rightarrow> nat \<Rightarrow> nat list" where
  "in_turn a n = concat (map (\<lambda>i. [i, i, i]) [a ..< a + n])"

definition reads_first :: "nat \<Rightarrow> nat list" where
  "reads_first n = [0 ..< n] @ in_turn 0 n"

definition committed :: "world \<Rightarrow> nat" where
  "committed w = length (filter (\<lambda>p. p = Committed) (w_phases w))"

definition counter :: "world \<Rightarrow> string \<Rightarrow> int" where
  "counter w uid = currentCount_of (db_profiles (w_db w) uid)"

definition ceiling_of :: "world \<Rightarrow> string \<Rightarrow> int" where
  "ceiling_of w uid = maxContacts_of (userPlan_of (db_profiles (w_db w) uid))"

text \<open>
  A request that nothing but the quota can stop: it passes the rate limiter, its body is
  valid, and the store accepts its insert.
\<close>

definition plain :: "creation \<Rightarrow> bool" where
  "plain c = (\<not> cr_rate_limited c \<and> cr_insert_ok c \<and> validateContact (cr_body c) = [])"

text \<open>
  No request of the list duplicates a stored contact or the contact of a request before it in
  the list.
\<close>

fun duplicate_free :: "duplicate_filter \<Rightarrow> string \<Rightarrow> contact list \<Rightarrow> creation list \<Rightarrow> bool" where
  "duplicate_free matches uid rows [] = True"
| "duplicate_free matches uid rows (c # cs) =
     (duplicate_rows matches uid (cr_body c) rows = []
      \<and> duplicate_free matches uid (rows @ [new_contact_row uid (cr_body c)]) cs)"

text \<open>A tenant on the free plan one contact below the ceiling of 50.\<close>

definition nearly_full_db :: db where
  "nearly_full_db =
     \<lparr>db_contacts = [],
      db_profiles = (\<lambda>u. if u = ''u2''
                          then Some \<lparr>subscription_plan = Some ''free'', contact_count = Some 49\<rparr>
                          else None)\<rparr>"

text \<open>A tenant on the free plan who has no contact yet.\<close>

definition fresh_db :: db where
  "fresh_db =
     \<lparr>db_contacts = [],
      db_profiles = (\<lambda>u. if u = ''u2''
                          then Some \<lparr>subscription_plan = Some ''free'', contact_count = Some 0\<rparr>
                          else None)\<rparr>"

text \<open>
  Worked instances: a store whose filter compares the e-mail address, and two requests with
  different addresses.
\<close>

definition email_filter :: duplicate_filter where
  "email_filter email phone row = (email \<noteq> None \<and> c_email row = email)"

definition second_input :: contact_input where
  "second_input = example_input\<lparr>in_name := Some ''Gopal'', in_email := Some ''gopal@example.com''\<rparr>"

definition two_creations :: "creation list" where
  "two_creations =
     [\<lparr>cr_body = example_input, cr_rate_limited = False, cr_insert_ok = True\<rparr>,
      \<lparr>cr_body = second_input, cr_rate_limited = False, cr_insert_ok = True\<rparr>]"

section \<open>Properties of the calendar arithmetic\<close>

lemma div_succ_int:
  fixes a k :: int
  assumes k: "0 < k"
  shows "(a + 1) div k = a div k + (if (a + 1) mod k = 0 then 1 else 0)"
proof (cases "a mod k + 1 < k")
  case True
  have eq: "a + 1 = k * (a div k) + (a mod k + 1)" by simp
  have nn: "0 \<le> a mod k + 1" using k by (simp add: add_nonneg_nonneg)
  have d: "(a + 1) div k = a div k" using int_div_pos_eq [OF eq nn True] .
  have m: "(a + 1) mod k = a mod k + 1" using int_mod_pos_eq [OF eq nn True] .
  have "0 \<le> a mod k" using k by simp
  then have "(a + 1) mod k \<noteq> 0" unfolding m by linarith
  with d show ?thesis by simp
next
  case False
  have "a mod k < k" using k by simp
  with False have r: "a mod k + 1 = k" by linarith
  have "a + 1 = k * (a div k) + (a mod k + 1)" by simp
  then have eq: "a + 1 = k * (a div k + 1) + 0" unfolding r by (simp add: algebra_simps)
  have d: "(a + 1) div k = a div k + 1" using int_div_pos_eq [OF eq _ k] by simp
  have m: "(a + 1) mod k = 0" using int_mod_pos_eq [OF eq _ k] by simp
  from d m show ?thesis by simp
qed

lemma mod_shift_int:
  fixes y c k :: int
  assumes "k dvd c"
  shows "(y - c) mod k = 0 \<longleftrightarrow> y mod k = 0"
proof -
  have "(y - c) mod k = 0 \<longleftrightarrow> k dvd (y - c)" by (simp add: dvd_eq_mod_eq_0)
  also have "\<dots> \<longleftrightarrow> k dvd y" using assms by (simp add: dvd_diff_right_iff dvd_diff_left_iff)
  also have "\<dots> \<longleftrightarrow> y mod k = 0" by (simp add: dvd_eq_mod_eq_0)
  finally show ?thesis .
qed

lemma m400_100: "(y::int) mod 400 = 0 \<Longrightarrow> y mod 100 = 0"
proof -
  assume "y mod 400 = 0"
  then have "400 dvd y" by (simp add: dvd_eq_mod_eq_0)
  moreover have "(100::int) dvd 400" by simp
  ultimately have "100 dvd y" using dvd_trans by blast
  then show ?thesis by (simp add: dvd_eq_mod_eq_0)
qed

lemma m100_4: "(y::int) mod 100 = 0 \<Longrightarrow> y mod 4 = 0"
proof -
  assume "y mod 100 = 0"
  then have "100 dvd y" by (simp add: dvd_eq_mod_eq_0)
  moreover have "(4::int) dvd 100" by simp
  ultimately have "4 dvd y" using dvd_trans by blast
  then show ?thesis by (simp add: dvd_eq_mod_eq_0)
qed


lemma DayFromYear_Suc: "DayFromYear (y + 1) = DayFromYear y + (if leap_year y then 366 else 365)"
proof -
  have a: "(y + 1 - 1969) div 4 = (y - 1969) div 4 + (if y mod 4 = 0 then 1 else 0)"
  proof -
    have "(y - 1969 + 1) mod 4 = 0 \<longleftrightarrow> y mod 4 = 0"
      using mod_shift_int [of 4 1968 y] by simp
    then show ?thesis using div_succ_int [of 4 "y - 1969"] by (simp add: add.commute)
  qed
  have b: "(y + 1 - 1901) div 100 = (y - 1901) div 100 + (if y mod 100 = 0 then 1 else 0)"
  proof -
    have "(y - 1901 + 1) mod 100 = 0 \<longleftrightarrow> y mod 100 = 0"
      using mod_shift_int [of 100 1900 y] by simp
    then show ?thesis using div_succ_int [of 100 "y - 1901"] by (simp add: add.commute)
  qed
  have c: "(y + 1 - 1601) div 400 = (y - 1601) div 400 + (if y mod 400 = 0 then 1 else 0)"
  proof -
    have "(y - 1601 + 1) mod 400 = 0 \<longleftrightarrow> y mod 400 = 0"
      using mod_shift_int [of 400 1600 y] by simp
    then show ?thesis using div_succ_int [of 400 "y - 1601"] by (simp add: add.commute)
  qed
  have e: "DayFromYear (y + 1) = 365 * (y + 1 - 1970) + (y + 1 - 1969) div 4 - (y + 1 - 1901) div 100 + (y + 1 - 1601) div 400"
    by (simp only: DayFromYear_def)
  have f: "DayFromYear (y + 1) = DayFromYear y + 365 + (if y mod 4 = 0 then 1 else 0)
             - (if y mod 100 = 0 then 1 else 0) + (if y mod 400 = 0 then 1 else 0)"
    unfolding e a b c DayFromYear_def by (simp only: algebra_simps)
  show ?thesis
  proof (cases "y mod 400 = 0")
    case True
    then have h: "y mod 100 = 0" by (rule m400_100)
    then have "y mod 4 = 0" by (rule m100_4)
    with True h show ?thesis unfolding f leap_year_def by simp
  next
    case n400: False
    show ?thesis
    proof (cases "y mod 100 = 0")
      case True
      then have "y mod 4 = 0" by (rule m100_4)
      with True n400 show ?thesis unfolding f leap_year_def by simp
    next
      case False
      with n400 show ?thesis unfolding f leap_year_def by simp
    qed
  qed
qed

lemma days_before_month_12: "days_before_month y 12 = (if leap_year y then 366 else 365)"
  by (simp add: eval_nat_numeral days_in_month_def)

lemma days_in_month_pos: "0 < days_in_month y m"
  by (simp add: days_in_month_def)

lemma days_in_month_ge28: "28 \<le> days_in_month y m"
  by (simp add: days_in_month_def)

lemma MakeDay_small: "m < 12 \<Longrightarrow> MakeDay y m dt = day_number y m dt"
  by (simp add: MakeDay_def day_number_def)

lemma day_number_next_month:
  assumes "m < 11" "days_in_month y m < dt"
  shows "day_number y (Suc m) (dt - days_in_month y m) = day_number y m dt"
  using assms by (simp add: day_number_def)

lemma day_number_next_year:
  assumes "days_in_month y 11 < dt"
  shows "day_number (y + 1) 0 (dt - days_in_month y 11) = day_number y 11 dt"
proof -
  have "days_before_month y 12 = days_before_month y 11 + days_in_month y 11"
    by (simp add: eval_nat_numeral)
  then have "days_before_month y 11 + days_in_month y 11 = (if leap_year y then 366 else 365)"
    using days_before_month_12 [of y] by simp
  then have "int (days_before_month y 11 + days_in_month y 11) = (if leap_year y then 366 else 365)"
    by simp
  then have "int (days_before_month y 11) + int (days_in_month y 11) = (if leap_year y then 366 else 365)"
    by (simp only: of_nat_add)
  then show ?thesis
    using assms by (simp add: day_number_def DayFromYear_Suc)
qed

lemma carry_days_stop: "\<not> days_in_month y m < dt \<Longrightarrow> carry_days y m dt = (y, m, dt)"
  by (subst carry_days.simps) simp

lemma carry_days_year: "days_in_month y m < dt \<Longrightarrow> 11 \<le> m \<Longrightarrow>
    carry_days y m dt = carry_days (y + 1) 0 (dt - days_in_month y m)"
  by (subst carry_days.simps) simp

lemma carry_days_month: "days_in_month y m < dt \<Longrightarrow> \<not> 11 \<le> m \<Longrightarrow>
    carry_days y m dt = carry_days y (Suc m) (dt - days_in_month y m)"
  by (subst carry_days.simps) simp


lemma carry_days_props:
  "m < 12 \<Longrightarrow> 1 \<le> dt \<Longrightarrow> carry_days y m dt = (y', m', d') \<Longrightarrow>
     day_number y' m' d' = day_number y m dt \<and> m' < 12 \<and> 1 \<le> d' \<and> d' \<le> days_in_month y' m'"
proof (induction y m dt rule: carry_days.induct)
  case (1 y m dt)
  show ?case
  proof (cases "days_in_month y m < dt")
    case False
    with "1.prems" show ?thesis by (simp add: carry_days.simps [of y m dt])
  next
    case over: True
    show ?thesis
    proof (cases "m \<ge> 11")
      case True
      with "1.prems" have m: "m = 11" by simp
      from over "1.prems" True have c: "carry_days (y + 1) 0 (dt - days_in_month y m) = (y', m', d')"
        by (simp add: carry_days.simps [of y m dt])
      have "1 \<le> dt - days_in_month y m" using over by simp
      with "1.IH"(1) [OF over True _ _ c] 
      have "day_number y' m' d' = day_number (y + 1) 0 (dt - days_in_month y m) \<and> m' < 12 \<and> 1 \<le> d' \<and> d' \<le> days_in_month y' m'"
        by simp
      then show ?thesis using day_number_next_year [of y dt] over m by simp
    next
      case False
      then have m: "m < 11" by simp
      from over "1.prems" False have c: "carry_days y (Suc m) (dt - days_in_month y m) = (y', m', d')"
        by (simp add: carry_days.simps [of y m dt])
      have "1 \<le> dt - days_in_month y m" using over by simp
      with "1.IH"(2) [OF over False _ _ c] m
      have "day_number y' m' d' = day_number y (Suc m) (dt - days_in_month y m) \<and> m' < 12 \<and> 1 \<le> d' \<and> d' \<le> days_in_month y' m'"
        by simp
      then show ?thesis using day_number_next_month [OF m over] by simp
    qed
  qed
qed

lemma carry_days_add:
  "carry_days y m dt = (y', m', d') \<Longrightarrow> carry_days y' m' (d' + b) = carry_days y m (dt + b)"
proof (induction y m dt rule: carry_days.induct)
  case (1 y m dt)
  show ?case
  proof (cases "days_in_month y m < dt")
    case False
    from "1.prems" have "(y, m, dt) = (y', m', d')" unfolding carry_days_stop [OF False] .
    then show ?thesis by simp
  next
    case over: True
    then have over': "days_in_month y m < dt + b" by simp
    have sub: "dt + b - days_in_month y m = dt - days_in_month y m + b" using over by simp
    show ?thesis
    proof (cases "11 \<le> m")
      case True
      from "1.prems" have c: "carry_days (y + 1) 0 (dt - days_in_month y m) = (y', m', d')"
        unfolding carry_days_year [OF over True] .
      have "carry_days y m (dt + b) = carry_days (y + 1) 0 (dt - days_in_month y m + b)"
        unfolding carry_days_year [OF over' True] sub ..
      with "1.IH"(1) [OF over True c] show ?thesis by simp
    next
      case False
      from "1.prems" have c: "carry_days y (Suc m) (dt - days_in_month y m) = (y', m', d')"
        unfolding carry_days_month [OF over False] .
      have "carry_days y m (dt + b) = carry_days y (Suc m) (dt - days_in_month y m + b)"
        unfolding carry_days_month [OF over' False] sub ..
      with "1.IH"(2) [OF over False c] show ?thesis by simp
    qed
  qed
qed

lemma make_date_props:
  assumes dt: "1 \<le> dt" and ms: "0 \<le> ms" "ms < msPerDay"
  shows "valid_date (make_date y m dt ms)"
    and "time_value (make_date y m dt ms) = MakeDay y m dt * msPerDay + ms"
proof -
  obtain y' m' d' where c: "carry_days (y + int (m div 12)) (m mod 12) dt = (y', m', d')"
    by (cases "carry_days (y + int (m div 12)) (m mod 12) dt") auto
  have m12: "m mod 12 < 12" by simp
  from carry_days_props [OF m12 dt c]
  have p: "day_number y' m' d' = day_number (y + int (m div 12)) (m mod 12) dt"
    "m' < 12" "1 \<le> d'" "d' \<le> days_in_month y' m'" by simp_all
  have md: "make_date y m dt ms = \<lparr>d_year = y', d_month = m', d_day = d', d_msec = ms\<rparr>"
    by (simp add: make_date_def c)
  show "valid_date (make_date y m dt ms)"
    using p ms by (simp add: md valid_date_def)
  have "MakeDay y m dt = day_number (y + int (m div 12)) (m mod 12) dt"
    by (simp add: MakeDay_def day_number_def)
  then show "time_value (make_date y m dt ms) = MakeDay y m dt * msPerDay + ms"
    using p by (simp add: md time_value_def MakeDay_small)
qed

lemma setDate_time_value:
  assumes v: "valid_date d"
  shows "time_value (setDate d (d_day d + n)) = time_value d + int n * msPerDay"
proof -
  from v have "1 \<le> d_day d + n" "0 \<le> d_msec d" "d_msec d < msPerDay"
    by (simp_all add: valid_date_def)
  then have "time_value (setDate d (d_day d + n)) = MakeDay (d_year d) (d_month d) (d_day d + n) * msPerDay + d_msec d"
    unfolding setDate_def by (rule make_date_props(2))
  moreover have "MakeDay (d_year d) (d_month d) (d_day d + n) = MakeDay (d_year d) (d_month d) (d_day d) + int n"
    by (simp add: MakeDay_def)
  ultimately show ?thesis by (simp add: time_value_def algebra_simps)
qed

lemma setDate_valid:
  assumes v: "valid_date d"
  shows "valid_date (setDate d (d_day d + n))"
proof -
  from v have "1 \<le> d_day d + n" "0 \<le> d_msec d" "d_msec d < msPerDay"
    by (simp_all add: valid_date_def)
  then show ?thesis unfolding setDate_def by (rule make_date_props(1))
qed

lemma setDate_twice:
  assumes v: "valid_date d"
  shows "setDate (setDate d (d_day d + a)) (d_day (setDate d (d_day d + a)) + b) = setDate d (d_day d + a + b)"
proof -
  from v have m: "d_month d < 12" and dt: "1 \<le> d_day d + a" by (simp_all add: valid_date_def)
  obtain y' m' d' where c: "carry_days (d_year d) (d_month d) (d_day d + a) = (y', m', d')"
    by (cases "carry_days (d_year d) (d_month d) (d_day d + a)") auto
  from carry_days_props [OF m dt c] have m': "m' < 12" by simp
  have s1: "setDate d (d_day d + a) = \<lparr>d_year = y', d_month = m', d_day = d', d_msec = d_msec d\<rparr>"
    using m c by (simp add: setDate_def make_date_def)
  have e: "carry_days y' m' (d' + b) = carry_days (d_year d) (d_month d) (d_day d + a + b)"
    using carry_days_add [OF c] .
  have "setDate \<lparr>d_year = y', d_month = m', d_day = d', d_msec = d_msec d\<rparr> (d' + b)
          = setDate d (d_day d + a + b)"
    using m m' by (simp add: setDate_def make_date_def e)
  then show ?thesis unfolding s1 by simp
qed


lemma make_date_no_carry:
  assumes "dt \<le> days_in_month (y + int (m div 12)) (m mod 12)"
  shows "make_date y m dt ms = \<lparr>d_year = y + int (m div 12), d_month = m mod 12, d_day = dt, d_msec = ms\<rparr>"
proof -
  from assms have "\<not> days_in_month (y + int (m div 12)) (m mod 12) < dt" by simp
  then show ?thesis by (simp add: make_date_def carry_days_stop)
qed

lemma div12_split: "(a + k) div 12 = a div 12 + (a mod 12 + k) div (12::nat)"
proof -
  have "a + k = 12 * (a div 12) + (a mod 12 + k)" by simp
  then have "(a + k) div 12 = (12 * (a div 12) + (a mod 12 + k)) div 12" by simp
  also have "\<dots> = a div 12 + (a mod 12 + k) div 12" by (simp only: div_mult_self4)
  finally show ?thesis .
qed

lemma monthly_step:
  assumes "d_day d \<le> 28"
  shows "calculateNextRecurrence d (Some ''monthly'') =
           Some \<lparr>d_year = d_year d + int ((d_month d + 1) div 12), d_month = (d_month d + 1) mod 12,
                 d_day = d_day d, d_msec = d_msec d\<rparr>"
proof -
  have "d_day d \<le> days_in_month (d_year d + int ((d_month d + 1) div 12)) ((d_month d + 1) mod 12)"
    using assms days_in_month_ge28 [of "d_year d + int ((d_month d + 1) div 12)" "(d_month d + 1) mod 12"]
    by linarith
  then show ?thesis
    by (simp add: calculateNextRecurrence_def setMonth_def make_date_no_carry)
qed

lemma monthly_iterate:
  "d_day d \<le> 28 \<Longrightarrow> d_month d < 12 \<Longrightarrow>
     repeat_recurrence k (Some ''monthly'') d =
       Some \<lparr>d_year = d_year d + int ((d_month d + k) div 12), d_month = (d_month d + k) mod 12,
             d_day = d_day d, d_msec = d_msec d\<rparr>"
proof (induction k arbitrary: d)
  case 0
  then show ?case by simp
next
  case (Suc k)
  let ?d' = "\<lparr>d_year = d_year d + int ((d_month d + 1) div 12), d_month = (d_month d + 1) mod 12,
                 d_day = d_day d, d_msec = d_msec d\<rparr>"
  have day': "d_day ?d' \<le> 28" using Suc.prems by simp
  have mon': "d_month ?d' < 12" by simp
  have "repeat_recurrence (Suc k) (Some ''monthly'') d = repeat_recurrence k (Some ''monthly'') ?d'"
    by (simp add: monthly_step [OF Suc.prems(1)])
  also have "\<dots> = Some \<lparr>d_year = d_year ?d' + int ((d_month ?d' + k) div 12), d_month = (d_month ?d' + k) mod 12,
             d_day = d_day ?d', d_msec = d_msec ?d'\<rparr>"
    by (rule Suc.IH [OF day' mon'])
  also have "\<dots> = Some \<lparr>d_year = d_year d + int ((d_month d + Suc k) div 12), d_month = (d_month d + Suc k) mod 12,
             d_day = d_day d, d_msec = d_msec d\<rparr>"
    using div12_split [of "d_month d + 1" k] by (simp add: mod_add_left_eq)
  finally show ?case .
qed

lemma setMonth_props:
  assumes v: "valid_date d"
  shows "valid_date (setMonth d m)"
    and "time_value (setMonth d m) = MakeDay (d_year d) m (d_day d) * msPerDay + d_msec d"
proof -
  from v have h: "1 \<le> d_day d" "0 \<le> d_msec d" "d_msec d < msPerDay"
    by (simp_all add: valid_date_def)
  show "valid_date (setMonth d m)" unfolding setMonth_def using h by (rule make_date_props(1))
  show "time_value (setMonth d m) = MakeDay (d_year d) m (d_day d) * msPerDay + d_msec d"
    unfolding setMonth_def using h by (rule make_date_props(2))
qed

lemma setFullYear_props:
  assumes v: "valid_date d"
  shows "valid_date (setFullYear d y)"
    and "time_value (setFullYear d y) = MakeDay y (d_month d) (d_day d) * msPerDay + d_msec d"
proof -
  from v have h: "1 \<le> d_day d" "0 \<le> d_msec d" "d_msec d < msPerDay"
    by (simp_all add: valid_date_def)
  show "valid_date (setFullYear d y)" unfolding setFullYear_def using h by (rule make_date_props(1))
  show "time_value (setFullYear d y) = MakeDay y (d_month d) (d_day d) * msPerDay + d_msec d"
    unfolding setFullYear_def using h by (rule make_date_props(2))
qed

lemma setMonth_no_overflow:
  assumes "d_day d \<le> days_in_month (d_year d + int (m div 12)) (m mod 12)"
  shows "setMonth d m = d\<lparr>d_year := d_year d + int (m div 12), d_month := m mod 12\<rparr>"
  unfolding setMonth_def make_date_no_carry [OF assms] by simp

lemma setFullYear_no_overflow:
  assumes "d_month d < 12" "d_day d \<le> days_in_month y (d_month d)"
  shows "setFullYear d y = d\<lparr>d_year := y\<rparr>"
proof -
  from assms have "d_day d \<le> days_in_month (y + int (d_month d div 12)) (d_month d mod 12)" by simp
  from make_date_no_carry [OF this] assms show ?thesis by (simp add: setFullYear_def)
qed

text \<open>
  C7: the next occurrence is a function of the due date and the rule alone. On a valid date,
  \<open>daily\<close>, \<open>weekly\<close> and \<open>biweekly\<close> advance the time value by exactly 1, 7 and 14 days;
  \<open>monthly\<close> and \<open>quarterly\<close> move the month by 1 and 3 (carrying into the year) and
  \<open>yearly\<close> moves the year by 1, in each case keeping the day of the month and the time of
  day whenever that day exists in the target month, and otherwise landing on the day that
  \<open>MakeDay\<close> gives for the overflowing day; every other rule, and no rule at all, gives no
  successor date.
\<close>

theorem calculateNextRecurrence_rules:
  assumes v: "valid_date d"
  shows "(\<exists>d'. calculateNextRecurrence d (Some ''daily'') = Some d' \<and> valid_date d'
            \<and> time_value d' = time_value d + 1 * msPerDay)
       \<and> (\<exists>d'. calculateNextRecurrence d (Some ''weekly'') = Some d' \<and> valid_date d'
            \<and> time_value d' = time_value d + 7 * msPerDay)
       \<and> (\<exists>d'. calculateNextRecurrence d (Some ''biweekly'') = Some d' \<and> valid_date d'
            \<and> time_value d' = time_value d + 14 * msPerDay)
       \<and> (\<exists>d'. calculateNextRecurrence d (Some ''monthly'') = Some d' \<and> valid_date d'
            \<and> time_value d' = MakeDay (d_year d) (d_month d + 1) (d_day d) * msPerDay + d_msec d
            \<and> (d_day d \<le> days_in_month (d_year d + int ((d_month d + 1) div 12)) ((d_month d + 1) mod 12)
                 \<longrightarrow> d' = d\<lparr>d_year := d_year d + int ((d_month d + 1) div 12),
                              d_month := (d_month d + 1) mod 12\<rparr>))
       \<and> (\<exists>d'. calculateNextRecurrence d (Some ''quarterly'') = Some d' \<and> valid_date d'
            \<and> time_value d' = MakeDay (d_year d) (d_month d + 3) (d_day d) * msPerDay + d_msec d
            \<and> (d_day d \<le> days_in_month (d_year d + int ((d_month d + 3) div 12)) ((d_month d + 3) mod 12)
                 \<longrightarrow> d' = d\<lparr>d_year := d_year d + int ((d_month d + 3) div 12),
                              d_month := (d_month d + 3) mod 12\<rparr>))
       \<and> (\<exists>d'. calculateNextRecurrence d (Some ''yearly'') = Some d' \<and> valid_date d'
            \<and> time_value d' = MakeDay (d_year d + 1) (d_month d) (d_day d) * msPerDay + d_msec d
            \<and> (d_day d \<le> days_in_month (d_year d + 1) (d_month d)
                 \<longrightarrow> d' = d\<lparr>d_year := d_year d + 1\<rparr>))
       \<and> (r \<notin> {Some ''daily'', Some ''weekly'', Some ''biweekly'', Some ''monthly'',
                  Some ''quarterly'', Some ''yearly''}
            \<longrightarrow> calculateNextRecurrence d r = None)"
proof -
  have days: "\<And>n. valid_date (setDate d (d_day d + n))
                 \<and> time_value (setDate d (d_day d + n)) = time_value d + int n * msPerDay"
    using setDate_valid [OF v] setDate_time_value [OF v] by simp
  have daily: "\<exists>d'. calculateNextRecurrence d (Some ''daily'') = Some d' \<and> valid_date d'
            \<and> time_value d' = time_value d + 1 * msPerDay"
    using days [of 1] by (simp add: calculateNextRecurrence_def)
  have weekly: "\<exists>d'. calculateNextRecurrence d (Some ''weekly'') = Some d' \<and> valid_date d'
            \<and> time_value d' = time_value d + 7 * msPerDay"
    using days [of 7] by (simp add: calculateNextRecurrence_def)
  have biweekly: "\<exists>d'. calculateNextRecurrence d (Some ''biweekly'') = Some d' \<and> valid_date d'
            \<and> time_value d' = time_value d + 14 * msPerDay"
    using days [of 14] by (simp add: calculateNextRecurrence_def)
  have months: "\<And>k. valid_date (setMonth d (d_month d + k))
            \<and> time_value (setMonth d (d_month d + k)) = MakeDay (d_year d) (d_month d + k) (d_day d) * msPerDay + d_msec d
            \<and> (d_day d \<le> days_in_month (d_year d + int ((d_month d + k) div 12)) ((d_month d + k) mod 12)
                 \<longrightarrow> setMonth d (d_month d + k) = d\<lparr>d_year := d_year d + int ((d_month d + k) div 12),
                              d_month := (d_month d + k) mod 12\<rparr>)"
    using setMonth_props [OF v] setMonth_no_overflow by blast
  have monthly: "\<exists>d'. calculateNextRecurrence d (Some ''monthly'') = Some d' \<and> valid_date d'
            \<and> time_value d' = MakeDay (d_year d) (d_month d + 1) (d_day d) * msPerDay + d_msec d
            \<and> (d_day d \<le> days_in_month (d_year d + int ((d_month d + 1) div 12)) ((d_month d + 1) mod 12)
                 \<longrightarrow> d' = d\<lparr>d_year := d_year d + int ((d_month d + 1) div 12),
                              d_month := (d_month d + 1) mod 12\<rparr>)"
    using months [of 1] by (simp add: calculateNextRecurrence_def)
  have quarterly: "\<exists>d'. calculateNextRecurrence d (Some ''quarterly'') = Some d' \<and> valid_date d'
            \<and> time_value d' = MakeDay (d_year d) (d_month d + 3) (d_day d) * msPerDay + d_msec d
            \<and> (d_day d \<le> days_in_month (d_year d + int ((d_month d + 3) div 12)) ((d_month d + 3) mod 12)
                 \<longrightarrow> d' = d\<lparr>d_year := d_year d + int ((d_month d + 3) div 12),
                              d_month := (d_month d + 3) mod 12\<rparr>)"
    using months [of 3] by (simp add: calculateNextRecurrence_def)
  from v have m: "d_month d < 12" by (simp add: valid_date_def)
  have yearly: "\<exists>d'. calculateNextRecurrence d (Some ''yearly'') = Some d' \<and> valid_date d'
            \<and> time_value d' = MakeDay (d_year d + 1) (d_month d) (d_day d) * msPerDay + d_msec d
            \<and> (d_day d \<le> days_in_month (d_year d + 1) (d_month d)
                 \<longrightarrow> d' = d\<lparr>d_year := d_year d + 1\<rparr>)"
    using setFullYear_props [OF v, of "d_year d + 1"] setFullYear_no_overflow [OF m, of "d_year d + 1"]
    by (simp add: calculateNextRecurrence_def)
  have other: "r \<notin> {Some ''daily'', Some ''weekly'', Some ''biweekly'', Some ''monthly'',
                  Some ''quarterly'', Some ''yearly''}
            \<longrightarrow> calculateNextRecurrence d r = None"
    by (simp add: calculateNextRecurrence_def)
  from daily weekly biweekly monthly quarterly yearly other show ?thesis by blast
qed

theorem calculateNextRecurrence_rules_witness:
  "valid_date \<lparr>d_year = 2024, d_month = 0, d_day = 31, d_msec = 34200000\<rparr>
   \<and> (\<exists>d'. calculateNextRecurrence \<lparr>d_year = 2024, d_month = 0, d_day = 31, d_msec = 34200000\<rparr>
               (Some ''weekly'') = Some d'
            \<and> time_value d'
                = time_value \<lparr>d_year = 2024, d_month = 0, d_day = 31, d_msec = 34200000\<rparr> + 7 * msPerDay)
   \<and> calculateNextRecurrence \<lparr>d_year = 2024, d_month = 0, d_day = 31, d_msec = 34200000\<rparr>
         (Some ''hourly'') = None"
proof -
  let ?d = "\<lparr>d_year = 2024, d_month = 0, d_day = 31, d_msec = 34200000\<rparr>"
  have v: "valid_date ?d"
    by (simp add: valid_date_def days_in_month_def msPerDay_def)
  have n: "Some ''hourly'' \<notin> {Some ''daily'', Some ''weekly'', Some ''biweekly'', Some ''monthly'',
                  Some ''quarterly'', Some ''yearly''}"
    by simp
  note t = calculateNextRecurrence_rules [OF v, of "Some ''hourly''"]
  from t [THEN conjunct2, THEN conjunct1]
  have w: "\<exists>d'. calculateNextRecurrence ?d (Some ''weekly'') = Some d'
            \<and> time_value d' = time_value ?d + 7 * msPerDay"
    by (elim exE conjE) (rule exI, rule conjI, assumption+)
  from t [THEN conjunct2, THEN conjunct2, THEN conjunct2, THEN conjunct2, THEN conjunct2,
          THEN conjunct2, THEN mp, OF n]
  have h: "calculateNextRecurrence ?d (Some ''hourly'') = None" .
  from v w h show ?thesis by (intro conjI)
qed

text \<open>
  C8: on a valid date, two weekly steps give the date that one biweekly step gives, and its time
  value is that of the start plus exactly 14 days; when the day of the month is at most 28, so
  that no month on the way is too short for it, twelve monthly steps give the same date one year
  later, which is also what one yearly step gives.
\<close>

theorem recurrence_step_composition:
  assumes v: "valid_date d"
  shows "(\<exists>d'. repeat_recurrence 2 (Some ''weekly'') d = Some d'
             \<and> calculateNextRecurrence d (Some ''biweekly'') = Some d'
             \<and> time_value d' = time_value d + 14 * msPerDay)
       \<and> (d_day d \<le> 28 \<longrightarrow>
             repeat_recurrence 12 (Some ''monthly'') d = Some (d\<lparr>d_year := d_year d + 1\<rparr>)
           \<and> calculateNextRecurrence d (Some ''yearly'') = Some (d\<lparr>d_year := d_year d + 1\<rparr>))"
proof -
  have two: "repeat_recurrence 2 (Some ''weekly'') d
               = Some (setDate (setDate d (d_day d + 7)) (d_day (setDate d (d_day d + 7)) + 7))"
    by (simp add: eval_nat_numeral calculateNextRecurrence_def)
  have e: "d_day d + 7 + 7 = d_day d + 14" by simp
  have same: "setDate (setDate d (d_day d + 7)) (d_day (setDate d (d_day d + 7)) + 7) = setDate d (d_day d + 14)"
    using setDate_twice [OF v, of 7 7] unfolding e .
  have bi: "calculateNextRecurrence d (Some ''biweekly'') = Some (setDate d (d_day d + 14))"
    by (simp add: calculateNextRecurrence_def)
  have tv: "time_value (setDate d (d_day d + 14)) = time_value d + 14 * msPerDay"
    using setDate_time_value [OF v, of 14] by simp
  have weekly: "\<exists>d'. repeat_recurrence 2 (Some ''weekly'') d = Some d'
             \<and> calculateNextRecurrence d (Some ''biweekly'') = Some d'
             \<and> time_value d' = time_value d + 14 * msPerDay"
    using two same bi tv by simp
  from v have m: "d_month d < 12" by (simp add: valid_date_def)
  have monthly: "repeat_recurrence 12 (Some ''monthly'') d = Some (d\<lparr>d_year := d_year d + 1\<rparr>)
           \<and> calculateNextRecurrence d (Some ''yearly'') = Some (d\<lparr>d_year := d_year d + 1\<rparr>)"
    if day: "d_day d \<le> 28"
  proof
    have "(d_month d + 12) div 12 = 1" "(d_month d + 12) mod 12 = d_month d" using m by simp_all
    then show "repeat_recurrence 12 (Some ''monthly'') d = Some (d\<lparr>d_year := d_year d + 1\<rparr>)"
      using monthly_iterate [OF day m, of 12] by simp
    have "d_day d \<le> days_in_month (d_year d + 1) (d_month d)"
      using day days_in_month_ge28 [of "d_year d + 1" "d_month d"] by linarith
    from setFullYear_no_overflow [OF m this]
    show "calculateNextRecurrence d (Some ''yearly'') = Some (d\<lparr>d_year := d_year d + 1\<rparr>)"
      by (simp add: calculateNextRecurrence_def)
  qed
  from weekly monthly show ?thesis by blast
qed

theorem recurrence_step_composition_witness:
  "valid_date \<lparr>d_year = 2023, d_month = 11, d_day = 28, d_msec = 0\<rparr>
   \<and> repeat_recurrence 2 (Some ''weekly'') \<lparr>d_year = 2023, d_month = 11, d_day = 28, d_msec = 0\<rparr>
       = Some \<lparr>d_year = 2024, d_month = 0, d_day = 11, d_msec = 0\<rparr>
   \<and> repeat_recurrence 12 (Some ''monthly'') \<lparr>d_year = 2023, d_month = 11, d_day = 28, d_msec = 0\<rparr>
       = Some \<lparr>d_year = 2024, d_month = 11, d_day = 28, d_msec = 0\<rparr>"
proof -
  let ?d = "\<lparr>d_year = 2023, d_month = 11, d_day = 28, d_msec = 0\<rparr>"
  have v: "valid_date ?d"
    by (simp add: valid_date_def days_in_month_def msPerDay_def)
  have bi: "calculateNextRecurrence ?d (Some ''biweekly'') = Some \<lparr>d_year = 2024, d_month = 0, d_day = 11, d_msec = 0\<rparr>"
    by code_simp
  from recurrence_step_composition [OF v] bi v show ?thesis by auto
qed

text \<open>
  The overflow behind the restriction to days up to 28: a monthly step from 31 January 2023
  lands on 3 March, since February has no day 31, and every later step keeps day 3.
\<close>

lemma monthly_overflow_jan31:
  "calculateNextRecurrence \<lparr>d_year = 2023, d_month = 0, d_day = 31, d_msec = 0\<rparr> (Some ''monthly'')
     = Some \<lparr>d_year = 2023, d_month = 2, d_day = 3, d_msec = 0\<rparr>"
  by code_simp

lemma calculateNextRecurrence_Some_iff:
  "(\<exists>d'. calculateNextRecurrence d r = Some d') \<longleftrightarrow> r \<in> Some ` set recurrence_rules"
  by (auto simp: calculateNextRecurrence_def recurrence_rules_def)


lemma mark_completed_fields:
  "rm_status (mark_completed r notes now) = ''completed''"
  "rm_recurrence (mark_completed r notes now) = rm_recurrence r"
  "rm_due_date (mark_completed r notes now) = rm_due_date r"
  "rm_title (mark_completed r notes now) = rm_title r"
  "rm_description (mark_completed r notes now) = rm_description r"
  "rm_contact_id (mark_completed r notes now) = rm_contact_id r"
  "rm_type (mark_completed r notes now) = rm_type r"
  "rm_priority (mark_completed r notes now) = rm_priority r"
  "rm_notification_minutes (mark_completed r notes now) = rm_notification_minutes r"
  "rm_user_id (mark_completed r notes now) = rm_user_id r"
  by (simp_all add: mark_completed_def Let_def)

lemma known_rule_truthy: "r \<in> Some ` set recurrence_rules \<Longrightarrow> truthy r"
  by (auto simp: recurrence_rules_def truthy_def)

lemma complete_reminder_known:
  assumes own: "tbl rid = Some r" "rm_user_id r = userId"
    and known: "calculateNextRecurrence (rm_due_date r) (rm_recurrence r) = Some nextDue"
  shows "complete_reminder tbl userId rid notes now new_id =
           (CompleteOk (mark_completed r notes now),
            insert_reminder (tbl(rid \<mapsto> mark_completed r notes now)) new_id
              (successor_reminder userId (mark_completed r notes now) nextDue))"
proof -
  from known have "rm_recurrence r \<in> Some ` set recurrence_rules"
    using calculateNextRecurrence_Some_iff by blast
  then have t: "truthy (rm_recurrence r)" by (rule known_rule_truthy)
  show ?thesis
    using own known t
    by (simp add: complete_reminder_def update_completed_def Let_def mark_completed_fields)
qed

lemma complete_reminder_unknown:
  assumes own: "tbl rid = Some r" "rm_user_id r = userId"
    and unknown: "calculateNextRecurrence (rm_due_date r) (rm_recurrence r) = None"
  shows "complete_reminder tbl userId rid notes now new_id =
           (CompleteOk (mark_completed r notes now), tbl(rid \<mapsto> mark_completed r notes now))"
  using own unknown
  by (simp add: complete_reminder_def update_completed_def Let_def mark_completed_fields)

text \<open>
  C6: completing a reminder of the caller keeps the original row, now in status \<open>completed\<close>,
  and touches no other existing row. When its recurrence is one of the six rules, exactly one
  row is added: a \<open>pending\<close> reminder due at the next occurrence, with title, description,
  contact, type, priority, recurrence and notification minutes copied. When the recurrence is
  \<open>null\<close> or any other value, no row is added.
\<close>

theorem complete_reminder_successor:
  assumes own: "tbl rid = Some r" "rm_user_id r = userId"
    and fresh: "new_id \<notin> dom tbl"
  shows "\<exists>tbl'. complete_reminder tbl userId rid notes now new_id
                  = (CompleteOk (mark_completed r notes now), tbl')
          \<and> tbl' rid = Some (mark_completed r notes now)
          \<and> rm_status (mark_completed r notes now) = ''completed''
          \<and> (\<forall>k. k \<noteq> rid \<and> k \<noteq> new_id \<longrightarrow> tbl' k = tbl k)
          \<and> (rm_recurrence r \<in> Some ` set recurrence_rules \<longrightarrow>
                dom tbl' = insert new_id (dom tbl)
              \<and> (\<exists>s. tbl' new_id = Some s
                    \<and> rm_status s = ''pending''
                    \<and> calculateNextRecurrence (rm_due_date r) (rm_recurrence r) = Some (rm_due_date s)
                    \<and> rm_user_id s = userId \<and> rm_title s = rm_title r
                    \<and> rm_description s = rm_description r \<and> rm_contact_id s = rm_contact_id r
                    \<and> rm_type s = rm_type r \<and> rm_priority s = rm_priority r
                    \<and> rm_recurrence s = rm_recurrence r
                    \<and> rm_notification_minutes s = rm_notification_minutes r))
          \<and> (rm_recurrence r \<notin> Some ` set recurrence_rules \<longrightarrow> dom tbl' = dom tbl)"
proof (cases "calculateNextRecurrence (rm_due_date r) (rm_recurrence r)")
  case None
  then have nk: "rm_recurrence r \<notin> Some ` set recurrence_rules"
    using calculateNextRecurrence_Some_iff [of "rm_due_date r" "rm_recurrence r"] by simp
  have d: "dom (tbl(rid \<mapsto> mark_completed r notes now)) = dom tbl"
    using own(1) by auto
  show ?thesis
    unfolding complete_reminder_unknown [where tbl = tbl and rid = rid, OF own None]
    using nk d by (simp add: mark_completed_fields)
next
  case (Some nextDue)
  then have k: "rm_recurrence r \<in> Some ` set recurrence_rules"
    using calculateNextRecurrence_Some_iff [of "rm_due_date r" "rm_recurrence r"] by blast
  from own(1) fresh have ne: "new_id \<noteq> rid" by auto
  have nd: "new_id \<notin> dom (tbl(rid \<mapsto> mark_completed r notes now))"
    using fresh ne by simp
  have d: "dom (tbl(rid \<mapsto> mark_completed r notes now)) = dom tbl"
    using own(1) by auto
  show ?thesis
    unfolding complete_reminder_known [where tbl = tbl and rid = rid, OF own Some]
    using k ne nd d Some
    by (simp add: insert_reminder_def successor_reminder_def mark_completed_fields)
qed

theorem complete_reminder_successor_witness:
  "[''r1'' \<mapsto> example_reminder] ''r1'' = Some example_reminder
   \<and> rm_user_id example_reminder = ''u1''
   \<and> ''r2'' \<notin> dom [''r1'' \<mapsto> example_reminder]
   \<and> rm_recurrence example_reminder \<in> Some ` set recurrence_rules
   \<and> (\<exists>tbl'. complete_reminder [''r1'' \<mapsto> example_reminder] ''u1'' ''r1'' None 1706693400000 ''r2''
                  = (CompleteOk (mark_completed example_reminder None 1706693400000), tbl')
          \<and> tbl' ''r1'' = Some (mark_completed example_reminder None 1706693400000)
          \<and> rm_status (mark_completed example_reminder None 1706693400000) = ''completed''
          \<and> (\<forall>k. k \<noteq> ''r1'' \<and> k \<noteq> ''r2'' \<longrightarrow> tbl' k = [''r1'' \<mapsto> example_reminder] k)
          \<and> (rm_recurrence example_reminder \<in> Some ` set recurrence_rules \<longrightarrow>
                dom tbl' = insert ''r2'' (dom [''r1'' \<mapsto> example_reminder])
              \<and> (\<exists>s. tbl' ''r2'' = Some s
                    \<and> rm_status s = ''pending''
                    \<and> calculateNextRecurrence (rm_due_date example_reminder) (rm_recurrence example_reminder)
                        = Some (rm_due_date s)
                    \<and> rm_user_id s = ''u1'' \<and> rm_title s = rm_title example_reminder
                    \<and> rm_description s = rm_description example_reminder
                    \<and> rm_contact_id s = rm_contact_id example_reminder
                    \<and> rm_type s = rm_type example_reminder \<and> rm_priority s = rm_priority example_reminder
                    \<and> rm_recurrence s = rm_recurrence example_reminder
                    \<and> rm_notification_minutes s = rm_notification_minutes example_reminder))
          \<and> (rm_recurrence example_reminder \<notin> Some ` set recurrence_rules \<longrightarrow>
                dom tbl' = dom [''r1'' \<mapsto> example_reminder]))"
proof -
  have h1: "[''r1'' \<mapsto> example_reminder] ''r1'' = Some example_reminder" by simp
  have h2: "rm_user_id example_reminder = ''u1''" by (simp add: example_reminder_def)
  have h3: "''r2'' \<notin> dom [''r1'' \<mapsto> example_reminder]" by simp
  have k: "rm_recurrence example_reminder \<in> Some ` set recurrence_rules"
    by (simp add: example_reminder_def recurrence_rules_def)
  note t = complete_reminder_successor [of "[''r1'' \<mapsto> example_reminder]" "''r1''" example_reminder
         "''u1''" "''r2''" None 1706693400000, OF h1 h2 h3]
  from h1 h2 h3 k t show ?thesis by (intro conjI)
qed

text \<open>The successor of the worked instance is due one week later, on 7 February 2024 at 09:30.\<close>

lemma example_reminder_next_due:
  "calculateNextRecurrence (rm_due_date example_reminder) (rm_recurrence example_reminder)
     = Some \<lparr>d_year = 2024, d_month = 1, d_day = 7, d_msec = 34200000\<rparr>"
  by code_simp

section \<open>Properties of the rate limiter\<close>

text \<open>A call that is not interrupted, written out command by command.\<close>

lemma isAllowed_unfold:
  "isAllowed lim key now rnd =
     (case lim_redis lim of
        None \<Rightarrow> (\<lparr>allowed = True, remaining = lim_max lim\<rparr>, lim)
      | Some rd \<Rightarrow>
          (let windowStart = now - lim_windowMs lim;
               redisKey = lim_keyPrefix lim @ key;
               fail_open = \<lparr>allowed = True, remaining = lim_max lim\<rparr>
           in case zremrangebyscore rd now redisKey 0 windowStart of
                Inl e \<Rightarrow> (fail_open, lim)
              | Inr rd1 \<Rightarrow>
                  (case zcard rd1 now redisKey of
                     Inl e \<Rightarrow> (fail_open, lim\<lparr>lim_redis := Some rd1\<rparr>)
                   | Inr count \<Rightarrow>
                       if count \<ge> lim_max lim
                       then (\<lparr>allowed = False, remaining = 0\<rparr>, lim\<lparr>lim_redis := Some rd1\<rparr>)
                       else (case zadd rd1 now redisKey now (now, rnd) of
                               Inl e \<Rightarrow> (fail_open, lim\<lparr>lim_redis := Some rd1\<rparr>)
                             | Inr rd2 \<Rightarrow>
                                 (case expire rd2 now redisKey (ceil_seconds (lim_windowMs lim)) of
                                    Inl e \<Rightarrow> (fail_open, lim\<lparr>lim_redis := Some rd2\<rparr>)
                                  | Inr rd3 \<Rightarrow>
                                      (\<lparr>allowed = True, remaining = lim_max lim - count - 1\<rparr>,
                                       lim\<lparr>lim_redis := Some rd3\<rparr>))))))"
  by (simp add: isAllowed_def isAllowed_step_def Let_def split: option.splits sum.splits)

lemma tokens_at_later:
  assumes "t \<le> t'"
  shows "tokens_at lim key t' = [] \<or> tokens_at lim key t' = tokens_at lim key t"
  using assms
  by (auto simp: tokens_at_def key_tokens_def live_key_def split: option.splits)

lemma tokens_at_empty_later:
  assumes "tokens_at lim key t = []" "t \<le> t'"
  shows "tokens_at lim key t' = []"
  using tokens_at_later [OF assms(2), of lim key] assms(1) by auto

lemma live_key_update_same:
  "live_key (rd\<lparr>rd_keys := (rd_keys rd)(k := v)\<rparr>) now k
     = (case v of None \<Rightarrow> None
        | Some z \<Rightarrow> (case zs_expire_at z of None \<Rightarrow> Some z | Some e \<Rightarrow> if e < now then None else Some z))"
  by (simp add: live_key_def)

lemma isAllowed_params:
  "lim_windowMs (snd (isAllowed lim key now rnd)) = lim_windowMs lim"
  "lim_max (snd (isAllowed lim key now rnd)) = lim_max lim"
  "lim_keyPrefix (snd (isAllowed lim key now rnd)) = lim_keyPrefix lim"
  by (simp_all add: isAllowed_unfold Let_def split: option.splits sum.splits)

lemma zremrangebyscore_up:
  "zremrangebyscore rd now k lo hi = Inr rd' \<Longrightarrow> rd_up rd' = rd_up rd"
  by (auto simp: zremrangebyscore_def store_key_def split: if_splits option.splits)

lemma zadd_up: "zadd rd now k s m = Inr rd' \<Longrightarrow> rd_up rd' = rd_up rd"
  by (auto simp: zadd_def split: if_splits option.splits)

lemma expire_up: "expire rd now k secs = Inr rd' \<Longrightarrow> rd_up rd' = rd_up rd"
  by (auto simp: expire_def split: if_splits option.splits)

lemma isAllowed_available:
  "redis_available lim \<Longrightarrow> redis_available (snd (isAllowed lim key now rnd))"
  by (auto simp: isAllowed_unfold Let_def redis_available_def
           dest: zremrangebyscore_up zadd_up expire_up split: option.splits sum.splits)




lemma purge_tokens:
  assumes "rd_up rd"
  shows "\<exists>rd1. zremrangebyscore rd now k lo hi = Inr rd1 \<and> rd_up rd1
           \<and> (\<forall>t'. now \<le> t' \<longrightarrow>
                 key_tokens rd1 t' k = filter (\<lambda>e. \<not> in_score_range lo hi e) (key_tokens rd t' k))"
  using assms
  by (auto simp: zremrangebyscore_def store_key_def key_tokens_def live_key_def
           split: option.splits if_splits)

lemma zcard_tokens:
  assumes "rd_up rd"
  shows "zcard rd now k = Inr (int (length (key_tokens rd now k)))"
  using assms by (simp add: zcard_def key_tokens_def split: option.splits)

lemma zadd_result:
  assumes "rd_up rd"
  shows "zadd rd now k s m
           = Inr (rd\<lparr>rd_keys := (rd_keys rd)(k := Some
                   \<lparr>zs_entries = zadd_entry m s (key_tokens rd now k),
                    zs_expire_at = (case live_key rd now k of None \<Rightarrow> None | Some z \<Rightarrow> zs_expire_at z)\<rparr>)\<rparr>)"
proof (cases "live_key rd now k")
  case None
  with assms show ?thesis by (simp add: zadd_def key_tokens_def)
next
  case (Some z)
  with assms show ?thesis by (cases z) (simp add: zadd_def key_tokens_def)
qed

lemma live_key_after_zadd:
  "live_key (rd\<lparr>rd_keys := (rd_keys rd)(k := Some
                   \<lparr>zs_entries = es,
                    zs_expire_at = (case live_key rd now k of None \<Rightarrow> None | Some z \<Rightarrow> zs_expire_at z)\<rparr>)\<rparr>) now k
     = Some \<lparr>zs_entries = es,
                    zs_expire_at = (case live_key rd now k of None \<Rightarrow> None | Some z \<Rightarrow> zs_expire_at z)\<rparr>"
proof (cases "live_key rd now k")
  case None
  then show ?thesis by (simp add: live_key_def)
next
  case (Some z)
  then have "rd_keys rd k = Some z" "\<forall>e. zs_expire_at z = Some e \<longrightarrow> \<not> e < now"
    by (auto simp: live_key_def split: option.splits if_splits)
  with Some show ?thesis by (auto simp: live_key_def split: option.splits)
qed

lemma zadd_expire_tokens:
  assumes up: "rd_up rd" and secs: "0 < secs"
  shows "\<exists>rd2 rd3. zadd rd now k s m = Inr rd2 \<and> expire rd2 now k secs = Inr rd3 \<and> rd_up rd3
           \<and> (\<forall>t'. now \<le> t' \<longrightarrow>
                 key_tokens rd3 t' k
                   = (if now + secs * 1000 < t' then [] else zadd_entry m s (key_tokens rd now k)))"
proof -
  let ?z = "\<lparr>zs_entries = zadd_entry m s (key_tokens rd now k),
             zs_expire_at = (case live_key rd now k of None \<Rightarrow> None | Some z \<Rightarrow> zs_expire_at z)\<rparr>"
  let ?rd2 = "rd\<lparr>rd_keys := (rd_keys rd)(k := Some ?z)\<rparr>"
  let ?rd3 = "?rd2\<lparr>rd_keys := (rd_keys ?rd2)(k := Some (?z\<lparr>zs_expire_at := Some (now + secs * 1000)\<rparr>))\<rparr>"
  have a: "zadd rd now k s m = Inr ?rd2" by (rule zadd_result [OF up])
  have l: "live_key ?rd2 now k = Some ?z" by (rule live_key_after_zadd)
  have up2: "rd_up ?rd2" using up by simp
  have e: "expire ?rd2 now k secs = Inr ?rd3"
    unfolding expire_def using up2 secs by (simp only: l) simp
  have up3: "rd_up ?rd3" using up by simp
  have t: "key_tokens ?rd3 t' k
             = (if now + secs * 1000 < t' then [] else zadd_entry m s (key_tokens rd now k))" for t'
    by (simp add: key_tokens_def live_key_def)
  from a e up3 t show ?thesis by blast
qed


lemma ceil_seconds_bounds:
  assumes "0 < w"
  shows "0 < ceil_seconds w" and "w \<le> ceil_seconds w * 1000"
proof -
  have m: "(- w) div 1000 * 1000 + (- w) mod 1000 = - w" by simp
  have "0 \<le> (- w) mod 1000" by simp
  with m have le: "(- w) div 1000 * 1000 \<le> - w" by linarith
  then show "w \<le> ceil_seconds w * 1000" by (simp add: ceil_seconds_def)
  with assms have "0 < ceil_seconds w * 1000" by linarith
  then show "0 < ceil_seconds w" by simp
qed

lemma isAllowed_rejects:
  assumes av: "redis_available lim"
    and full: "lim_max lim \<le> int (length (surviving_tokens lim key now))"
  shows "fst (isAllowed lim key now rnd) = \<lparr>allowed = False, remaining = 0\<rparr>"
    and "now \<le> t' \<Longrightarrow> tokens_at (snd (isAllowed lim key now rnd)) key t'
           = filter (\<lambda>e. \<not> in_score_range 0 (now - lim_windowMs lim) e) (tokens_at lim key t')"
proof -
  from av obtain rd where rd: "lim_redis lim = Some rd" and up: "rd_up rd"
    by (auto simp: redis_available_def split: option.splits)
  let ?k = "lim_keyPrefix lim @ key"
  from purge_tokens [OF up, of now ?k 0 "now - lim_windowMs lim"]
  obtain rd1 where p: "zremrangebyscore rd now ?k 0 (now - lim_windowMs lim) = Inr rd1"
    and up1: "rd_up rd1"
    and t1: "\<And>t'. now \<le> t' \<Longrightarrow> key_tokens rd1 t' ?k
               = filter (\<lambda>e. \<not> in_score_range 0 (now - lim_windowMs lim) e) (key_tokens rd t' ?k)"
    by blast
  have s: "key_tokens rd1 now ?k = surviving_tokens lim key now"
    using t1 [of now] rd by (simp add: surviving_tokens_def tokens_at_def)
  have c: "zcard rd1 now ?k = Inr (int (length (surviving_tokens lim key now)))"
    using zcard_tokens [OF up1, of now ?k] s by simp
  have r: "isAllowed lim key now rnd = (\<lparr>allowed = False, remaining = 0\<rparr>, lim\<lparr>lim_redis := Some rd1\<rparr>)"
    using full by (simp add: isAllowed_unfold Let_def rd p c)
  show "fst (isAllowed lim key now rnd) = \<lparr>allowed = False, remaining = 0\<rparr>"
    by (simp add: r)
  show "tokens_at (snd (isAllowed lim key now rnd)) key t'
           = filter (\<lambda>e. \<not> in_score_range 0 (now - lim_windowMs lim) e) (tokens_at lim key t')"
    if "now \<le> t'"
    using t1 [OF that] by (simp add: r tokens_at_def rd)
qed

lemma isAllowed_admits:
  assumes av: "redis_available lim"
    and room: "int (length (surviving_tokens lim key now)) < lim_max lim"
    and w: "0 < lim_windowMs lim"
  shows "fst (isAllowed lim key now rnd)
           = \<lparr>allowed = True, remaining = lim_max lim - int (length (surviving_tokens lim key now)) - 1\<rparr>"
    and "now \<le> t' \<Longrightarrow> tokens_at (snd (isAllowed lim key now rnd)) key t'
           = (if now + ceil_seconds (lim_windowMs lim) * 1000 < t' then []
              else zadd_entry (now, rnd) now (surviving_tokens lim key now))"
proof -
  from av obtain rd where rd: "lim_redis lim = Some rd" and up: "rd_up rd"
    by (auto simp: redis_available_def split: option.splits)
  let ?k = "lim_keyPrefix lim @ key"
  from purge_tokens [OF up, of now ?k 0 "now - lim_windowMs lim"]
  obtain rd1 where p: "zremrangebyscore rd now ?k 0 (now - lim_windowMs lim) = Inr rd1"
    and up1: "rd_up rd1"
    and t1: "\<And>t'. now \<le> t' \<Longrightarrow> key_tokens rd1 t' ?k
               = filter (\<lambda>e. \<not> in_score_range 0 (now - lim_windowMs lim) e) (key_tokens rd t' ?k)"
    by blast
  have s: "key_tokens rd1 now ?k = surviving_tokens lim key now"
    using t1 [of now] rd by (simp add: surviving_tokens_def tokens_at_def)
  have c: "zcard rd1 now ?k = Inr (int (length (surviving_tokens lim key now)))"
    using zcard_tokens [OF up1, of now ?k] s by simp
  from zadd_expire_tokens [OF up1 ceil_seconds_bounds(1) [OF w], of now ?k now "(now, rnd)"]
  obtain rd2 rd3 where a: "zadd rd1 now ?k now (now, rnd) = Inr rd2"
    and e: "expire rd2 now ?k (ceil_seconds (lim_windowMs lim)) = Inr rd3"
    and t3: "\<And>t'. now \<le> t' \<Longrightarrow> key_tokens rd3 t' ?k
               = (if now + ceil_seconds (lim_windowMs lim) * 1000 < t' then []
                  else zadd_entry (now, rnd) now (key_tokens rd1 now ?k))"
    by blast
  have r: "isAllowed lim key now rnd
             = (\<lparr>allowed = True, remaining = lim_max lim - int (length (surviving_tokens lim key now)) - 1\<rparr>,
                lim\<lparr>lim_redis := Some rd3\<rparr>)"
    using room by (simp add: isAllowed_unfold Let_def rd p c a e)
  show "fst (isAllowed lim key now rnd)
           = \<lparr>allowed = True, remaining = lim_max lim - int (length (surviving_tokens lim key now)) - 1\<rparr>"
    by (simp add: r)
  show "tokens_at (snd (isAllowed lim key now rnd)) key t'
           = (if now + ceil_seconds (lim_windowMs lim) * 1000 < t' then []
              else zadd_entry (now, rnd) now (surviving_tokens lim key now))"
    if "now \<le> t'"
    using t3 [OF that] by (simp add: r tokens_at_def s)
qed


lemma zadd_entry_fresh: "m \<notin> fst ` set es \<Longrightarrow> zadd_entry m s es = es @ [(m, s)]"
  by (induction es) auto

lemma tokens_of_calls_snoc:
  assumes "c \<notin> set prev"
  shows "zadd_entry c (fst c) (tokens_of_calls prev) = tokens_of_calls (prev @ [c])"
proof -
  have "fst ` set (tokens_of_calls prev) = set prev"
    by (force simp: tokens_of_calls_def)
  with assms have "c \<notin> fst ` set (tokens_of_calls prev)" by simp
  then show ?thesis by (simp add: zadd_entry_fresh tokens_of_calls_def)
qed

lemma filter_keeps_recent:
  assumes "\<forall>c\<in>set prev. hi < fst c"
  shows "filter (\<lambda>e. \<not> in_score_range lo hi e) (tokens_of_calls prev) = tokens_of_calls prev"
  using assms by (induction prev) (auto simp: tokens_of_calls_def in_score_range_def)

lemma filter_drops_old:
  assumes "\<forall>c\<in>set prev. lo \<le> fst c \<and> fst c \<le> hi"
  shows "filter (\<lambda>e. \<not> in_score_range lo hi e) (tokens_of_calls prev) = []"
  using assms by (induction prev) (auto simp: tokens_of_calls_def in_score_range_def)

lemma admitted_results_Cons:
  "admitted_results mx i (Suc n) = \<lparr>allowed = True, remaining = mx - int i - 1\<rparr> # admitted_results mx (Suc i) n"
  by (simp add: admitted_results_def upt_conv_Cons)

lemma isAllowed_series_within_window:
  "redis_available lim \<Longrightarrow> 0 < lim_windowMs lim \<Longrightarrow>
   (\<forall>t'. lo \<le> t' \<and> t' < B \<longrightarrow> tokens_at lim key t' = tokens_of_calls prev) \<Longrightarrow>
   B \<le> t1 + lim_windowMs lim \<Longrightarrow>
   (\<forall>c\<in>set prev. t1 \<le> fst c) \<Longrightarrow>
   sorted (map fst calls) \<Longrightarrow>
   (\<forall>c\<in>set calls. lo \<le> fst c \<and> fst c < B \<and> t1 \<le> fst c) \<Longrightarrow>
   distinct (prev @ calls) \<Longrightarrow>
   int (length prev + length calls) \<le> lim_max lim \<Longrightarrow>
   fst (isAllowed_series lim key calls) = admitted_results (lim_max lim) (length prev) (length calls)
   \<and> redis_available (snd (isAllowed_series lim key calls))
   \<and> lim_windowMs (snd (isAllowed_series lim key calls)) = lim_windowMs lim
   \<and> lim_max (snd (isAllowed_series lim key calls)) = lim_max lim
   \<and> (\<forall>t'. (if calls = [] then lo else fst (last calls)) \<le> t' \<and> t' < B \<longrightarrow>
          tokens_at (snd (isAllowed_series lim key calls)) key t' = tokens_of_calls (prev @ calls))"
proof (induction calls arbitrary: lim lo prev)
  case Nil
  then show ?case by (simp add: admitted_results_def)
next
  case (Cons c calls)
  obtain t r where c: "c = (t, r)" by (cases c)
  let ?w = "lim_windowMs lim"
  let ?lim' = "snd (isAllowed lim key t r)"
  from Cons.prems(7) c have t: "lo \<le> t" "t < B" "t1 \<le> t" by auto
  have tok: "tokens_at lim key t = tokens_of_calls prev" using Cons.prems(3) t by simp
  have "\<forall>d\<in>set prev. t - ?w < fst d" using Cons.prems(4,5) t by fastforce
  then have surv: "surviving_tokens lim key t = tokens_of_calls prev"
    by (simp add: surviving_tokens_def tok filter_keeps_recent)
  have len: "length (surviving_tokens lim key t) = length prev"
    by (simp add: surv tokens_of_calls_def)
  have room: "int (length (surviving_tokens lim key t)) < lim_max lim"
    using Cons.prems(9) by (simp add: len)
  note adm = isAllowed_admits [OF Cons.prems(1) room Cons.prems(2), where rnd = r]
  have res: "fst (isAllowed lim key t r) = \<lparr>allowed = True, remaining = lim_max lim - int (length prev) - 1\<rparr>"
    using adm(1) by (simp add: len)
  have fresh: "c \<notin> set prev" using Cons.prems(8) by auto
  have ttl: "?w \<le> ceil_seconds ?w * 1000" by (rule ceil_seconds_bounds(2) [OF Cons.prems(2)])
  have inv': "\<forall>t'. t \<le> t' \<and> t' < B \<longrightarrow> tokens_at ?lim' key t' = tokens_of_calls (prev @ [c])"
  proof (intro allI impI)
    fix t' assume h: "t \<le> t' \<and> t' < B"
    then have "\<not> t + ceil_seconds ?w * 1000 < t'" using Cons.prems(4) t(3) ttl by linarith
    with adm(2) [of t'] h have "tokens_at ?lim' key t' = zadd_entry (t, r) t (tokens_of_calls prev)"
      by (simp add: surv)
    then show "tokens_at ?lim' key t' = tokens_of_calls (prev @ [c])"
      using tokens_of_calls_snoc [OF fresh] by (simp add: c)
  qed
  have av': "redis_available ?lim'" by (rule isAllowed_available [OF Cons.prems(1)])
  have w': "0 < lim_windowMs ?lim'" using Cons.prems(2) by (simp add: isAllowed_params)
  have B': "B \<le> t1 + lim_windowMs ?lim'" using Cons.prems(4) by (simp add: isAllowed_params)
  have d1: "\<forall>d\<in>set (prev @ [c]). t1 \<le> fst d" using Cons.prems(5) t(3) c by auto
  have srt: "sorted (map fst calls)" using Cons.prems(6) by simp
  have rest: "\<forall>d\<in>set calls. t \<le> fst d \<and> fst d < B \<and> t1 \<le> fst d"
    using Cons.prems(6,7) c by auto
  have dist: "distinct ((prev @ [c]) @ calls)" using Cons.prems(8) by simp
  have cnt: "int (length (prev @ [c]) + length calls) \<le> lim_max ?lim'"
    using Cons.prems(9) by (simp add: isAllowed_params)
  note ih = Cons.IH [OF av' w' inv' B' d1 srt rest dist cnt]
  have unfold: "isAllowed_series lim key (c # calls)
                  = (fst (isAllowed lim key t r) # fst (isAllowed_series ?lim' key calls),
                     snd (isAllowed_series ?lim' key calls))"
    by (simp add: c split: prod.splits)
  have last_le: "(if calls = [] then t else fst (last calls)) \<le> fst (last (c # calls))"
    by (simp add: c)
  have last_ge: "fst (last (c # calls)) \<le> (if calls = [] then t else fst (last calls))"
    by (simp add: c)
  show ?case
    unfolding unfold
    using ih res last_le last_ge
    by (simp add: admitted_results_Cons isAllowed_params)
qed


lemma sorted_fst_bounds:
  assumes "sorted (map fst calls)" "c \<in> set calls"
  shows "fst (hd calls) \<le> fst c" and "fst c \<le> fst (last calls)"
proof -
  from assms(2) have ne: "calls \<noteq> []" by auto
  from assms(2) obtain i where i: "i < length calls" "calls ! i = c"
    by (auto simp: in_set_conv_nth)
  have "map fst calls ! 0 \<le> map fst calls ! i"
    using assms(1) i(1) by (intro sorted_nth_mono) auto
  then show "fst (hd calls) \<le> fst c" using i ne by (simp add: hd_conv_nth)
  have "map fst calls ! i \<le> map fst calls ! (length calls - 1)"
    using assms(1) i(1) by (intro sorted_nth_mono) auto
  then show "fst c \<le> fst (last calls)" using i ne by (simp add: last_conv_nth)
qed

lemma admitted_results_allowed:
  "map allowed (admitted_results mx i n) = replicate n True"
  by (simp add: admitted_results_def comp_def map_replicate_const)

lemma window_scenario:
  assumes av: "redis_available lim" and w: "0 < lim_windowMs lim"
    and ne: "calls \<noteq> []" and n: "int (length calls) = lim_max lim"
    and srt: "sorted (map fst calls)" and dist: "distinct calls"
    and t0: "0 \<le> fst (hd calls)"
    and win: "fst (last calls) < fst (hd calls) + lim_windowMs lim"
    and empty: "tokens_at lim key (fst (hd calls)) = []"
    and t: "fst (last calls) \<le> t" "t < fst (hd calls) + lim_windowMs lim"
    and t2: "t + lim_windowMs lim \<le> t2"
  shows "fst (isAllowed_series lim key calls) = admitted_results (lim_max lim) 0 (length calls)"
    and "fst (isAllowed (snd (isAllowed_series lim key calls)) key t r) = \<lparr>allowed = False, remaining = 0\<rparr>"
    and "fst (isAllowed (snd (isAllowed (snd (isAllowed_series lim key calls)) key t r)) key t2 r2)
           = \<lparr>allowed = True, remaining = lim_max lim - 1\<rparr>"
proof -
  let ?t1 = "fst (hd calls)"
  let ?w = "lim_windowMs lim"
  let ?B = "?t1 + ?w"
  let ?lim1 = "snd (isAllowed_series lim key calls)"
  let ?lim2 = "snd (isAllowed ?lim1 key t r)"
  have inv: "\<forall>t'. ?t1 \<le> t' \<and> t' < ?B \<longrightarrow> tokens_at lim key t' = tokens_of_calls []"
    using tokens_at_empty_later [OF empty] by (simp add: tokens_of_calls_def)
  have rng: "\<forall>c\<in>set calls. ?t1 \<le> fst c \<and> fst c < ?B \<and> ?t1 \<le> fst c"
    using sorted_fst_bounds [OF srt] win by fastforce
  have "fst (isAllowed_series lim key calls) = admitted_results (lim_max lim) (length ([]::(int \<times> nat) list)) (length calls)
   \<and> redis_available ?lim1
   \<and> lim_windowMs ?lim1 = ?w
   \<and> lim_max ?lim1 = lim_max lim
   \<and> (\<forall>t'. (if calls = [] then ?t1 else fst (last calls)) \<le> t' \<and> t' < ?B \<longrightarrow>
          tokens_at ?lim1 key t' = tokens_of_calls ([] @ calls))"
    by (rule isAllowed_series_within_window [OF av w inv _ _ srt rng]) (use dist n in simp_all)
  then have rs: "fst (isAllowed_series lim key calls) = admitted_results (lim_max lim) 0 (length calls)"
    and av1: "redis_available ?lim1" and w1: "lim_windowMs ?lim1 = ?w" and m1: "lim_max ?lim1 = lim_max lim"
    and tok1: "\<And>t'. fst (last calls) \<le> t' \<Longrightarrow> t' < ?B \<Longrightarrow> tokens_at ?lim1 key t' = tokens_of_calls calls"
    using ne by simp_all
  show "fst (isAllowed_series lim key calls) = admitted_results (lim_max lim) 0 (length calls)"
    by (rule rs)
  have tk: "tokens_at ?lim1 key t = tokens_of_calls calls" using tok1 t by simp
  have recent: "\<forall>c\<in>set calls. t - ?w < fst c" using rng t(2) by fastforce
  have keep: "filter (\<lambda>e. \<not> in_score_range 0 (t - ?w) e) (tokens_of_calls calls) = tokens_of_calls calls"
    by (rule filter_keeps_recent [OF recent])
  have surv1: "surviving_tokens ?lim1 key t = tokens_of_calls calls"
    by (simp add: surviving_tokens_def tk w1 keep)
  have full: "lim_max ?lim1 \<le> int (length (surviving_tokens ?lim1 key t))"
    using n by (simp add: surv1 m1 tokens_of_calls_def)
  note rej = isAllowed_rejects [OF av1 full, where rnd = r]
  show "fst (isAllowed ?lim1 key t r) = \<lparr>allowed = False, remaining = 0\<rparr>" by (rule rej(1))
  have le: "t \<le> t2" using t2 w by linarith
  have "tokens_at ?lim1 key t2 = [] \<or> tokens_at ?lim1 key t2 = tokens_of_calls calls"
    using tokens_at_later [OF le, of ?lim1 key] tk by simp
  moreover have "tokens_at ?lim2 key t2 = filter (\<lambda>e. \<not> in_score_range 0 (t - ?w) e) (tokens_at ?lim1 key t2)"
    using rej(2) [OF le] by (simp add: w1)
  ultimately have tok2: "tokens_at ?lim2 key t2 = [] \<or> tokens_at ?lim2 key t2 = tokens_of_calls calls"
    using keep by auto
  have av2: "redis_available ?lim2" by (rule isAllowed_available [OF av1])
  have w2: "lim_windowMs ?lim2 = ?w" by (simp add: isAllowed_params w1)
  have m2: "lim_max ?lim2 = lim_max lim" by (simp add: isAllowed_params m1)
  have old: "\<forall>c\<in>set calls. 0 \<le> fst c \<and> fst c \<le> t2 - ?w"
  proof
    fix c assume c: "c \<in> set calls"
    from sorted_fst_bounds [OF srt c] t0 t(1) t2
    show "0 \<le> fst c \<and> fst c \<le> t2 - ?w" by linarith
  qed
  have drop: "filter (\<lambda>e. \<not> in_score_range 0 (t2 - ?w) e) (tokens_of_calls calls) = []"
    by (rule filter_drops_old [OF old])
  have surv2: "surviving_tokens ?lim2 key t2 = []"
    using tok2 drop by (auto simp: surviving_tokens_def w2)
  have pos: "0 < lim_max lim" using n ne by (cases calls) auto
  have room: "int (length (surviving_tokens ?lim2 key t2)) < lim_max ?lim2"
    using pos by (simp add: surv2 m2)
  have w2': "0 < lim_windowMs ?lim2" using w by (simp add: w2)
  from isAllowed_admits(1) [OF av2 room w2', where rnd = r2]
  show "fst (isAllowed ?lim2 key t2 r2) = \<lparr>allowed = True, remaining = lim_max lim - 1\<rparr>"
    by (simp add: surv2 m2)
qed

lemma zadd_entry_member: "(m, s) \<in> set (zadd_entry m s es)"
  by (induction es) auto

text \<open>Four stretches take a call from its start to its return.\<close>

lemma four_stretches:
  "(case isAllowed_step lim key now rnd Purging of
      (p1, l1) \<Rightarrow> (case isAllowed_step l1 key now rnd p1 of
         (p2, l2) \<Rightarrow> (case isAllowed_step l2 key now rnd p2 of
            (p3, l3) \<Rightarrow> isAllowed_step l3 key now rnd p3)))
     = (Returned (fst (isAllowed lim key now rnd)), snd (isAllowed lim key now rnd))"
  by (simp add: isAllowed_unfold isAllowed_step_def Let_def split: option.splits sum.splits)

lemma advance_call_at:
  assumes "i < length cs"
  shows "advance_call i (lim, cs)
           = (snd (isAllowed_step lim (ac_key (cs ! i)) (ac_now (cs ! i)) (ac_rnd (cs ! i)) (ac_phase (cs ! i))),
              cs[i := (cs ! i)\<lparr>ac_phase :=
                   fst (isAllowed_step lim (ac_key (cs ! i)) (ac_now (cs ! i)) (ac_rnd (cs ! i)) (ac_phase (cs ! i)))\<rparr>])"
  using assms by (simp add: advance_call_def split: prod.splits)

lemma call_alone:
  assumes i: "i < length cs" and c: "cs ! i = new_call key (now, rnd)"
  shows "run_calls [i, i, i, i] (lim, cs)
           = (snd (isAllowed lim key now rnd),
              cs[i := (new_call key (now, rnd))\<lparr>ac_phase := Returned (fst (isAllowed lim key now rnd))\<rparr>])"
proof -
  obtain p1 l1 where s1: "isAllowed_step lim key now rnd Purging = (p1, l1)"
    by (cases "isAllowed_step lim key now rnd Purging")
  obtain p2 l2 where s2: "isAllowed_step l1 key now rnd p1 = (p2, l2)"
    by (cases "isAllowed_step l1 key now rnd p1")
  obtain p3 l3 where s3: "isAllowed_step l2 key now rnd p2 = (p3, l3)"
    by (cases "isAllowed_step l2 key now rnd p2")
  obtain p4 l4 where s4: "isAllowed_step l3 key now rnd p3 = (p4, l4)"
    by (cases "isAllowed_step l3 key now rnd p3")
  from four_stretches [where lim = lim and key = key and now = now and rnd = rnd]
  have r: "p4 = Returned (fst (isAllowed lim key now rnd))" "l4 = snd (isAllowed lim key now rnd)"
    by (simp_all add: s1 s2 s3 s4)
  let ?c = "new_call key (now, rnd)"
  have a1: "advance_call i (lim, cs) = (l1, cs[i := ?c\<lparr>ac_phase := p1\<rparr>])"
    using i c by (simp add: advance_call_at new_call_def s1)
  have a2: "advance_call i (l1, cs[i := ?c\<lparr>ac_phase := p1\<rparr>]) = (l2, cs[i := ?c\<lparr>ac_phase := p2\<rparr>])"
    using i by (simp add: advance_call_at new_call_def s2)
  have a3: "advance_call i (l2, cs[i := ?c\<lparr>ac_phase := p2\<rparr>]) = (l3, cs[i := ?c\<lparr>ac_phase := p3\<rparr>])"
    using i by (simp add: advance_call_at new_call_def s3)
  have a4: "advance_call i (l3, cs[i := ?c\<lparr>ac_phase := p3\<rparr>]) = (l4, cs[i := ?c\<lparr>ac_phase := p4\<rparr>])"
    using i by (simp add: advance_call_at new_call_def s4)
  show ?thesis by (simp add: a1 a2 a3 a4 r)
qed

lemma run_calls_append: "run_calls (s1 @ s2) w = run_calls s2 (run_calls s1 w)"
  by (induction s1 arbitrary: w) simp_all

lemma back_to_back_Suc: "back_to_back a (Suc n) = [a, a, a, a] @ back_to_back (Suc a) n"
  by (simp add: back_to_back_def upt_conv_Cons)

text \<open>On the schedule without overlap the calls are answered as a series of whole calls.\<close>

lemma run_calls_back_to_back:
  "run_calls (back_to_back (length pre) (length calls)) (lim, pre @ map (new_call key) calls)
     = (snd (isAllowed_series lim key calls),
        pre @ map (\<lambda>(c, r). (new_call key c)\<lparr>ac_phase := Returned r\<rparr>)
                (zip calls (fst (isAllowed_series lim key calls))))"
proof (induction calls arbitrary: lim pre)
  case Nil
  then show ?case by (simp add: back_to_back_def)
next
  case (Cons c calls)
  obtain now rnd where c: "c = (now, rnd)" by (cases c)
  let ?cs = "pre @ map (new_call key) (c # calls)"
  let ?r = "fst (isAllowed lim key now rnd)"
  let ?lim' = "snd (isAllowed lim key now rnd)"
  let ?done = "(new_call key c)\<lparr>ac_phase := Returned ?r\<rparr>"
  have i: "length pre < length ?cs" by simp
  have at: "?cs ! length pre = new_call key (now, rnd)" by (simp add: c nth_append)
  have one: "run_calls [length pre, length pre, length pre, length pre] (lim, ?cs)
               = (?lim', (pre @ [?done]) @ map (new_call key) calls)"
    using call_alone [OF i at, of lim] by (simp add: c)
  have len: "length (pre @ [?done]) = Suc (length pre)" by simp
  from Cons.IH [of "pre @ [?done]" ?lim']
  have ih: "run_calls (back_to_back (Suc (length pre)) (length calls)) (?lim', (pre @ [?done]) @ map (new_call key) calls)
     = (snd (isAllowed_series ?lim' key calls),
        (pre @ [?done]) @ map (\<lambda>(c, r). (new_call key c)\<lparr>ac_phase := Returned r\<rparr>)
                (zip calls (fst (isAllowed_series ?lim' key calls))))"
    by (simp only: len)
  have sp: "run_calls (back_to_back (length pre) (length (c # calls))) (lim, ?cs)
              = run_calls (back_to_back (Suc (length pre)) (length calls)) (?lim', (pre @ [?done]) @ map (new_call key) calls)"
  proof -
    have "back_to_back (length pre) (length (c # calls))
            = [length pre, length pre, length pre, length pre] @ back_to_back (Suc (length pre)) (length calls)"
      by (simp add: back_to_back_Suc)
    then show ?thesis by (simp only: run_calls_append one)
  qed
  have ser: "isAllowed_series lim key (c # calls)
               = (?r # fst (isAllowed_series ?lim' key calls), snd (isAllowed_series ?lim' key calls))"
    by (simp add: c split: prod.splits)
  show ?case unfolding sp ih ser by simp
qed

text \<open>
  C9, for calls that do not overlap: with the store reachable and a positive window, a call
  at \<open>now\<close> that runs to its return with no other call in between first drops the key's
  tokens with score between 0 and \<open>now - windowMs\<close>; it is admitted exactly when fewer than
  \<open>max\<close> tokens survive, and then answers \<open>max - count - 1\<close> and leaves its own token, scored
  \<open>now\<close>, in the set; otherwise it answers \<open>allowed = false\<close>, \<open>remaining = 0\<close> and leaves
  only the survivors. Consequently, starting from a key without tokens, \<open>max\<close> calls with
  distinct tokens inside one window, each returning before the next starts, are all admitted, a
  further call inside that window is rejected, and a call made a full window after the
  rejected one is admitted again. Such a series is what the schedule without overlap computes.
\<close>

theorem sliding_window_admission:
  assumes av: "redis_available lim" and w: "0 < lim_windowMs lim"
  shows "(allowed (fst (isAllowed lim key now rnd))
            \<longleftrightarrow> int (length (surviving_tokens lim key now)) < lim_max lim)
       \<and> surviving_tokens lim key now
            = filter (\<lambda>e. \<not> (0 \<le> snd e \<and> snd e \<le> now - lim_windowMs lim)) (tokens_at lim key now)
       \<and> (int (length (surviving_tokens lim key now)) < lim_max lim \<longrightarrow>
             fst (isAllowed lim key now rnd)
               = \<lparr>allowed = True,
                  remaining = lim_max lim - int (length (surviving_tokens lim key now)) - 1\<rparr>
           \<and> tokens_at (snd (isAllowed lim key now rnd)) key now
               = zadd_entry (now, rnd) now (surviving_tokens lim key now)
           \<and> ((now, rnd), now) \<in> set (tokens_at (snd (isAllowed lim key now rnd)) key now))
       \<and> (lim_max lim \<le> int (length (surviving_tokens lim key now)) \<longrightarrow>
             fst (isAllowed lim key now rnd) = \<lparr>allowed = False, remaining = 0\<rparr>
           \<and> tokens_at (snd (isAllowed lim key now rnd)) key now = surviving_tokens lim key now)
       \<and> (calls \<noteq> [] \<and> int (length calls) = lim_max lim
            \<and> sorted (map fst calls) \<and> distinct calls \<and> 0 \<le> fst (hd calls)
            \<and> fst (last calls) < fst (hd calls) + lim_windowMs lim
            \<and> tokens_at lim key (fst (hd calls)) = []
            \<and> fst (last calls) \<le> t \<and> t < fst (hd calls) + lim_windowMs lim
            \<and> t + lim_windowMs lim \<le> t2 \<longrightarrow>
             map allowed (fst (isAllowed_series lim key calls)) = replicate (length calls) True
           \<and> fst (isAllowed (snd (isAllowed_series lim key calls)) key t r)
               = \<lparr>allowed = False, remaining = 0\<rparr>
           \<and> fst (isAllowed (snd (isAllowed (snd (isAllowed_series lim key calls)) key t r)) key t2 r2)
               = \<lparr>allowed = True, remaining = lim_max lim - 1\<rparr>)
       \<and> run_calls (back_to_back 0 (length calls)) (lim, map (new_call key) calls)
           = (snd (isAllowed_series lim key calls),
              map (\<lambda>(c, r). (new_call key c)\<lparr>ac_phase := Returned r\<rparr>)
                (zip calls (fst (isAllowed_series lim key calls))))"
proof -
  let ?n = "int (length (surviving_tokens lim key now))"
  have sched: "run_calls (back_to_back 0 (length calls)) (lim, map (new_call key) calls)
           = (snd (isAllowed_series lim key calls),
              map (\<lambda>(c, r). (new_call key c)\<lparr>ac_phase := Returned r\<rparr>)
                (zip calls (fst (isAllowed_series lim key calls))))"
    using run_calls_back_to_back [of "[]" calls lim key] by simp
  have adm: "fst (isAllowed lim key now rnd) = \<lparr>allowed = True, remaining = lim_max lim - ?n - 1\<rparr>
           \<and> tokens_at (snd (isAllowed lim key now rnd)) key now
               = zadd_entry (now, rnd) now (surviving_tokens lim key now)
           \<and> ((now, rnd), now) \<in> set (tokens_at (snd (isAllowed lim key now rnd)) key now)"
    if room: "?n < lim_max lim"
  proof -
    have "0 < ceil_seconds (lim_windowMs lim) * 1000"
      using ceil_seconds_bounds(1) [OF w] by simp
    then have ne: "\<not> now + ceil_seconds (lim_windowMs lim) * 1000 < now" by linarith
    from isAllowed_admits(2) [OF av room w, where t' = now and rnd = rnd] ne
    have tk: "tokens_at (snd (isAllowed lim key now rnd)) key now
               = zadd_entry (now, rnd) now (surviving_tokens lim key now)"
      by simp
    from isAllowed_admits(1) [OF av room w] tk zadd_entry_member show ?thesis by simp
  qed
  have rej: "fst (isAllowed lim key now rnd) = \<lparr>allowed = False, remaining = 0\<rparr>
           \<and> tokens_at (snd (isAllowed lim key now rnd)) key now = surviving_tokens lim key now"
    if full: "lim_max lim \<le> ?n"
    using isAllowed_rejects(1) [OF av full] isAllowed_rejects(2) [OF av full, where t' = now and rnd = rnd]
    by (simp add: surviving_tokens_def)
  have iff: "allowed (fst (isAllowed lim key now rnd)) \<longleftrightarrow> ?n < lim_max lim"
  proof (cases "?n < lim_max lim")
    case True
    with adm show ?thesis by simp
  next
    case False
    then have "lim_max lim \<le> ?n" by simp
    with rej False show ?thesis by simp
  qed
  have purge: "surviving_tokens lim key now
            = filter (\<lambda>e. \<not> (0 \<le> snd e \<and> snd e \<le> now - lim_windowMs lim)) (tokens_at lim key now)"
    by (simp add: surviving_tokens_def in_score_range_def)
  have scen: "map allowed (fst (isAllowed_series lim key calls)) = replicate (length calls) True
           \<and> fst (isAllowed (snd (isAllowed_series lim key calls)) key t r)
               = \<lparr>allowed = False, remaining = 0\<rparr>
           \<and> fst (isAllowed (snd (isAllowed (snd (isAllowed_series lim key calls)) key t r)) key t2 r2)
               = \<lparr>allowed = True, remaining = lim_max lim - 1\<rparr>"
    if h: "calls \<noteq> [] \<and> int (length calls) = lim_max lim
            \<and> sorted (map fst calls) \<and> distinct calls \<and> 0 \<le> fst (hd calls)
            \<and> fst (last calls) < fst (hd calls) + lim_windowMs lim
            \<and> tokens_at lim key (fst (hd calls)) = []
            \<and> fst (last calls) \<le> t \<and> t < fst (hd calls) + lim_windowMs lim
            \<and> t + lim_windowMs lim \<le> t2"
  proof -
    from h have hs: "calls \<noteq> []" "int (length calls) = lim_max lim" "sorted (map fst calls)"
      "distinct calls" "0 \<le> fst (hd calls)" "fst (last calls) < fst (hd calls) + lim_windowMs lim"
      "tokens_at lim key (fst (hd calls)) = []" "fst (last calls) \<le> t"
      "t < fst (hd calls) + lim_windowMs lim" "t + lim_windowMs lim \<le> t2"
      by simp_all
    note s = window_scenario [OF av w hs]
    from s(1) have "map allowed (fst (isAllowed_series lim key calls)) = replicate (length calls) True"
      by (simp add: admitted_results_allowed)
    with s(2) [where r = r] s(3) [where r = r and ?r2.0 = r2] show ?thesis by simp
  qed
  from iff purge adm rej scen sched show ?thesis by blast
qed


theorem sliding_window_admission_witness:
  "redis_available example_limiter \<and> 0 < lim_windowMs example_limiter
   \<and> ([(100 :: int, 1 :: nat), (200, 2)] \<noteq> [] \<and> int (length [(100 :: int, 1 :: nat), (200, 2)]) = lim_max example_limiter
        \<and> sorted (map fst [(100 :: int, 1 :: nat), (200, 2)]) \<and> distinct [(100 :: int, 1 :: nat), (200, 2)]
        \<and> 0 \<le> fst (hd [(100 :: int, 1 :: nat), (200, 2)])
        \<and> fst (last [(100 :: int, 1 :: nat), (200, 2)])
             < fst (hd [(100 :: int, 1 :: nat), (200, 2)]) + lim_windowMs example_limiter
        \<and> tokens_at example_limiter ''u1'' (fst (hd [(100 :: int, 1 :: nat), (200, 2)])) = []
        \<and> fst (last [(100 :: int, 1 :: nat), (200, 2)]) \<le> 300
        \<and> 300 < fst (hd [(100 :: int, 1 :: nat), (200, 2)]) + lim_windowMs example_limiter
        \<and> 300 + lim_windowMs example_limiter \<le> 1300)
   \<and> (map allowed (fst (isAllowed_series example_limiter ''u1'' [(100, 1), (200, 2)]))
          = replicate (length [(100 :: int, 1 :: nat), (200, 2)]) True
        \<and> fst (isAllowed (snd (isAllowed_series example_limiter ''u1'' [(100, 1), (200, 2)])) ''u1'' 300 3)
            = \<lparr>allowed = False, remaining = 0\<rparr>
        \<and> fst (isAllowed (snd (isAllowed (snd (isAllowed_series example_limiter ''u1'' [(100, 1), (200, 2)]))
                                 ''u1'' 300 3)) ''u1'' 1300 4)
            = \<lparr>allowed = True, remaining = lim_max example_limiter - 1\<rparr>)"
proof -
  have av: "redis_available example_limiter"
    by (simp add: example_limiter_def new_limiter_def redis_available_def)
  have w: "0 < lim_windowMs example_limiter"
    by (simp add: example_limiter_def new_limiter_def)
  have h: "[(100 :: int, 1 :: nat), (200, 2)] \<noteq> [] \<and> int (length [(100 :: int, 1 :: nat), (200, 2)]) = lim_max example_limiter
        \<and> sorted (map fst [(100 :: int, 1 :: nat), (200, 2)]) \<and> distinct [(100 :: int, 1 :: nat), (200, 2)]
        \<and> 0 \<le> fst (hd [(100 :: int, 1 :: nat), (200, 2)])
        \<and> fst (last [(100 :: int, 1 :: nat), (200, 2)])
             < fst (hd [(100 :: int, 1 :: nat), (200, 2)]) + lim_windowMs example_limiter
        \<and> tokens_at example_limiter ''u1'' (fst (hd [(100 :: int, 1 :: nat), (200, 2)])) = []
        \<and> fst (last [(100 :: int, 1 :: nat), (200, 2)]) \<le> 300
        \<and> 300 < fst (hd [(100 :: int, 1 :: nat), (200, 2)]) + lim_windowMs example_limiter
        \<and> 300 + lim_windowMs example_limiter \<le> 1300"
    by (simp add: example_limiter_def new_limiter_def tokens_at_def key_tokens_def live_key_def)
  note t = sliding_window_admission [OF av w, where key = "''u1''" and calls = "[(100, 1), (200, 2)]"
             and t = 300 and ?t2.0 = 1300 and r = 3 and ?r2.0 = 4]
  note c = t [THEN conjunct2, THEN conjunct2, THEN conjunct2, THEN conjunct2, THEN conjunct1, THEN mp, OF h]
  show ?thesis by (rule conjI [OF av conjI [OF w conjI [OF h c]]])
qed

text \<open>Without a reachable store the limiter admits every call and reports the full budget.\<close>

lemma isAllowed_fail_open:
  assumes "\<not> redis_available lim"
  shows "fst (isAllowed lim key now rnd) = \<lparr>allowed = True, remaining = lim_max lim\<rparr>"
  using assms
  by (auto simp: isAllowed_unfold Let_def redis_available_def zremrangebyscore_def split: option.splits)

text \<open>
  Two calls that overlap: a limiter with \<open>max = 1\<close> and a window of one second over an empty
  store, and two calls for the same key, one millisecond apart, whose commands reach the server
  in turn. Both purge, both then count no token, both add theirs: the second call, the
  \<open>max + 1\<close>-th inside the window, is admitted as well, and the key holds two tokens. Had
  the first call returned before the second started, the second would have been rejected.
\<close>

theorem overlapping_calls_both_admitted:
  "lim_max single_limiter = 1 \<and> lim_windowMs single_limiter = 1000
   \<and> map ac_phase (snd (run_calls [0, 1, 0, 1, 0, 1, 0, 1]
                            (single_limiter, [new_call ''u1'' (100, 1), new_call ''u1'' (101, 2)])))
       = [Returned \<lparr>allowed = True, remaining = 0\<rparr>, Returned \<lparr>allowed = True, remaining = 0\<rparr>]
   \<and> tokens_at (fst (run_calls [0, 1, 0, 1, 0, 1, 0, 1]
                         (single_limiter, [new_call ''u1'' (100, 1), new_call ''u1'' (101, 2)]))) ''u1'' 101
       = [((100, 1), 100), ((101, 2), 101)]
   \<and> map ac_phase (snd (run_calls (back_to_back 0 2)
                            (single_limiter, [new_call ''u1'' (100, 1), new_call ''u1'' (101, 2)])))
       = [Returned \<lparr>allowed = True, remaining = 0\<rparr>, Returned \<lparr>allowed = False, remaining = 0\<rparr>]"
  by code_simp

section \<open>Properties of the upload jobs\<close>

lemma processNamecard_success:
  "processNamecard (create_job js jobId msg now) d jobId userId (Extraction (Some ec)) True
     = ((create_job js jobId msg now)(jobId \<mapsto>
          completed_job ''Contact created successfully''
            (CardContact (namecard_contact userId jobId ec) ec) (Some now)),
        increment_contact_count
          (d\<lparr>db_contacts := db_contacts d @ [namecard_contact userId jobId ec]\<rparr>) userId 1)"
  by (simp add: processNamecard_def processNamecard_start_def processNamecard_extracted_def
        processNamecard_save_def set_keeping_created_def create_job_def insert_contacts_def
        processing_job_def Let_def)

text \<open>
  C10: the status look-up answers from the job id alone. Any two authenticated callers get
  the same answer for the same id; in particular the finished job of one user's business-card
  upload, with the contact created for that user, is returned to any other authenticated user
  who asks for that id.
\<close>

theorem get_status_ignores_caller:
  "get_status js (Some u1) jobId = get_status js (Some u2) jobId
   \<and> get_status
         (fst (snd (post_namecard js0 d (Some owner) False True jobId now (Extraction (Some ec)) True)))
         (Some other) jobId
       = Success 200
           (jobId,
            completed_job ''Contact created successfully''
              (CardContact (namecard_contact owner jobId ec) ec) (Some now))
   \<and> c_user_id (namecard_contact owner jobId ec) = owner"
proof -
  have a: "get_status js (Some u1) jobId = get_status js (Some u2) jobId"
    by (simp add: get_status_def)
  have "post_namecard js0 d (Some owner) False True jobId now (Extraction (Some ec)) True
          = (Success 202 jobId,
             processNamecard (create_job js0 jobId ''Processing business card...'' now) d jobId owner
               (Extraction (Some ec)) True)"
    by (simp add: post_namecard_def authenticateToken_def)
  then have b: "get_status
         (fst (snd (post_namecard js0 d (Some owner) False True jobId now (Extraction (Some ec)) True)))
         (Some other) jobId
       = Success 200
           (jobId,
            completed_job ''Contact created successfully''
              (CardContact (namecard_contact owner jobId ec) ec) (Some now))"
    by (simp add: processNamecard_success get_status_def)
  have c: "c_user_id (namecard_contact owner jobId ec) = owner"
    by (simp add: namecard_contact_def)
  from a b c show ?thesis by (intro conjI)
qed


lemma terminal_simps:
  "terminal_job (failed_job msg err created)"
  "terminal_job (completed_job msg res created)"
  "\<not> terminal_job (processing_job p msg created)"
  "j_status (processing_job p msg created) = Processing"
  by (simp_all add: terminal_job_def failed_job_def completed_job_def processing_job_def)

lemma processing_failed_entry:
  "\<exists>j. processing_failed js jobId msg jobId = Some j \<and> terminal_job j"
  by (simp add: processing_failed_def terminal_job_def)

lemma set_keeping_created_entry:
  assumes "set_keeping_created js jobId mk = Inr js'"
  shows "\<exists>c. js' jobId = Some (mk c)"
  using assms by (auto simp: set_keeping_created_def split: option.splits)



lemma left_by_failed: "left_by_stretch (processing_failed js jobId msg) jobId False"
  using processing_failed_entry [of js jobId msg] by (simp add: left_by_stretch_def)

lemma left_by_set_terminal:
  assumes "set_keeping_created js jobId mk = Inr js'" "\<And>c. terminal_job (mk c)"
  shows "left_by_stretch js' jobId False"
  using set_keeping_created_entry [OF assms(1)] assms(2) by (auto simp: left_by_stretch_def)

lemma left_by_set_processing:
  assumes "set_keeping_created js jobId mk = Inr js'" "\<And>c. j_status (mk c) = Processing"
  shows "left_by_stretch js' jobId True"
  using set_keeping_created_entry [OF assms(1)] assms(2) by (auto simp: left_by_stretch_def)

lemma stretch_read:
  "left_by_stretch (fst (processSpreadsheet_read js jobId file now)) jobId
     (snd (processSpreadsheet_read js jobId file now) \<noteq> None)"
proof (cases "file")
  case NoFile
  then show ?thesis by (simp add: processSpreadsheet_read_def Let_def left_by_failed)
next
  case (Unreadable msg)
  then show ?thesis by (simp add: processSpreadsheet_read_def Let_def left_by_failed)
next
  case (Sheet data)
  then show ?thesis
    by (simp add: processSpreadsheet_read_def Let_def set_keeping_created_def
          left_by_stretch_def terminal_simps)
qed

lemma finish_entry:
  "left_by_stretch
     (fst (case set_keeping_created js1 jobId (completed_job m r) of
             Inl e \<Rightarrow> (processing_failed js1 jobId e, None :: contact list option)
           | Inr js2 \<Rightarrow> (js2, None))) jobId False"
  "snd (case set_keeping_created js1 jobId (completed_job m r) of
             Inl e \<Rightarrow> (processing_failed js1 jobId e, None :: contact list option)
           | Inr js2 \<Rightarrow> (js2, None)) = None"
  by (auto simp: left_by_failed terminal_simps intro: left_by_set_terminal split: sum.splits)

lemma stretch_analysed:
  "left_by_stretch (fst (processSpreadsheet_analysed js jobId userId data an lim)) jobId
     (snd (processSpreadsheet_analysed js jobId userId data an lim) \<noteq> None)"
proof (cases an)
  case (AnalysisFailed err)
  then show ?thesis
    by (auto simp: processSpreadsheet_analysed_def left_by_failed terminal_simps
             intro: left_by_set_terminal split: sum.splits)
next
  case (Analysis cm)
  show ?thesis
  proof (cases "set_keeping_created js jobId (processing_job 50 ''Importing contacts...'')")
    case (Inl e)
    with Analysis show ?thesis by (simp add: processSpreadsheet_analysed_def left_by_failed)
  next
    case (Inr js1)
    have p: "left_by_stretch js1 jobId True"
      by (rule left_by_set_processing [OF Inr]) (simp add: terminal_simps)
    show ?thesis
    proof (cases cm)
      case None
      with Analysis Inr show ?thesis
        by (simp add: processSpreadsheet_analysed_def left_by_failed finish_entry)
    next
      case (Some m)
      with Analysis Inr p show ?thesis
        by (simp add: processSpreadsheet_analysed_def Let_def finish_entry)
    qed
  qed
qed

lemma stretch_insert:
  "left_by_stretch (fst (processSpreadsheet_insert js d jobId userId n toInsert ok)) jobId False"
  by (auto simp: processSpreadsheet_insert_def insert_contacts_def Let_def left_by_failed terminal_simps
           intro: left_by_set_terminal split: sum.splits)

lemma stretch_card_start:
  "left_by_stretch (fst (processNamecard_start js jobId)) jobId (snd (processNamecard_start js jobId))"
  by (auto simp: processNamecard_start_def left_by_failed terminal_simps
           intro: left_by_set_processing split: sum.splits)

lemma stretch_card_extracted:
  "left_by_stretch (fst (processNamecard_extracted js jobId ex)) jobId
     (snd (processNamecard_extracted js jobId ex) \<noteq> None)"
  by (cases ex)
     (auto simp: processNamecard_extracted_def left_by_failed terminal_simps
           intro: left_by_set_processing left_by_set_terminal split: sum.splits)

lemma stretch_card_save:
  "left_by_stretch (fst (processNamecard_save js d jobId userId st ok)) jobId False"
  by (cases st)
     (auto simp: processNamecard_save_def insert_contacts_def Let_def left_by_failed terminal_simps
           intro: left_by_set_terminal split: sum.splits)

lemma worker_spreadsheet_ends:
  "left_by_stretch (fst (processSpreadsheet js d jobId userId upl lim now an ok)) jobId False"
proof -
  obtain js1 k where r: "processSpreadsheet_read js jobId upl now = (js1, k)"
    by (cases "processSpreadsheet_read js jobId upl now")
  have l1: "left_by_stretch js1 jobId (k \<noteq> None)"
    using stretch_read [of js jobId upl now] by (simp add: r)
  show ?thesis
  proof (cases k)
    case None
    with l1 r show ?thesis by (simp add: processSpreadsheet_def)
  next
    case (Some data)
    obtain js2 k2 where a: "processSpreadsheet_analysed js1 jobId userId data an lim = (js2, k2)"
      by (cases "processSpreadsheet_analysed js1 jobId userId data an lim")
    have l2: "left_by_stretch js2 jobId (k2 \<noteq> None)"
      using stretch_analysed [of js1 jobId userId data an lim] by (simp add: a)
    show ?thesis
    proof (cases k2)
      case None
      with l2 r a Some show ?thesis by (simp add: processSpreadsheet_def)
    next
      case (Some toInsert)
      with r a \<open>k = Some data\<close> show ?thesis
        by (simp add: processSpreadsheet_def stretch_insert)
    qed
  qed
qed

lemma worker_namecard_ends:
  "left_by_stretch (fst (processNamecard js d jobId userId ex ok)) jobId False"
proof -
  obtain js1 k where r: "processNamecard_start js jobId = (js1, k)"
    by (cases "processNamecard_start js jobId")
  have l1: "left_by_stretch js1 jobId k"
    using stretch_card_start [of js jobId] by (simp add: r)
  show ?thesis
  proof (cases k)
    case False
    with l1 r show ?thesis by (simp add: processNamecard_def)
  next
    case True
    obtain js2 k2 where a: "processNamecard_extracted js1 jobId ex = (js2, k2)"
      by (cases "processNamecard_extracted js1 jobId ex")
    have l2: "left_by_stretch js2 jobId (k2 \<noteq> None)"
      using stretch_card_extracted [of js1 jobId ex] by (simp add: a)
    show ?thesis
    proof (cases k2)
      case None
      with l2 r a True show ?thesis by (simp add: processNamecard_def)
    next
      case (Some st)
      with r a True show ?thesis
        by (simp add: processNamecard_def stretch_card_save)
    qed
  qed
qed

lemma sweep_old:
  assumes "js jobId = Some j" "j_createdAt j = Some c" "c < now - retention_ms"
  shows "sweep js now jobId = None"
    and "get_status (sweep js now) (Some u) jobId = Failure 404 ''JOB_NOT_FOUND''"
  using assms by (simp_all add: sweep_def get_status_def)

lemma sweep_young:
  assumes "js jobId = Some j" "j_createdAt j = Some c" "now - retention_ms \<le> c"
  shows "sweep js now jobId = Some j"
  using assms by (simp add: sweep_def)

lemma sweep_absent_stays: "js jobId = None \<Longrightarrow> sweep js now jobId = None"
  by (simp add: sweep_def)

lemma next_sweep_after_expiry:
  assumes "start \<le> c + retention_ms"
  shows "\<exists>k. c + retention_ms < sweep_time start k
            \<and> sweep_time start k \<le> c + retention_ms + sweep_interval_ms"
proof -
  let ?x = "c + retention_ms - start"
  let ?I = "sweep_interval_ms"
  have I: "0 < ?I" by (simp add: sweep_interval_ms_def)
  from assms have x: "0 \<le> ?x" by simp
  let ?k = "nat (?x div ?I)"
  have q: "0 \<le> ?x div ?I" using x I by (simp add: pos_imp_zdiv_nonneg_iff)
  have k: "int (Suc ?k) = ?x div ?I + 1" using q by simp
  have dm: "?x = (?x div ?I) * ?I + ?x mod ?I" by simp
  have m: "0 \<le> ?x mod ?I" "?x mod ?I < ?I" using I by simp_all
  have e: "sweep_time start ?k = start + (?x div ?I) * ?I + ?I"
    unfolding sweep_time_def k by (simp add: algebra_simps)
  have "c + retention_ms < sweep_time start ?k" using dm m e by linarith
  moreover have "sweep_time start ?k \<le> c + retention_ms + ?I" using dm m e by linarith
  ultimately show ?thesis by blast
qed


text \<open>
  The life of an upload job, stretch by stretch. The handler stores the job in status
  \<open>processing\<close> with progress 0, where it can be fetched by its id. Every stretch of either
  worker leaves an entry under the job id: in \<open>processing\<close> when the worker goes on, and
  terminal (completed with a result or failed with an error, at progress 100) when it ends; a
  worker run to its end leaves a terminal entry. A sweep keeps an entry created within the
  last hour and deletes one whose \<open>createdAt\<close> is more than an hour old, and the look-up then
  answers not-found; the timer fires every 15 minutes, so such a sweep comes at most 15
  minutes after the hour has passed.
\<close>

lemma upload_job_lifecycle:
  "create_job js jobId msg now jobId
     = Some \<lparr>j_status = Processing, j_progress = 0, j_message = msg, j_result = None,
             j_error = None, j_createdAt = Some now\<rparr>
   \<and> get_status (create_job js jobId msg now) (Some u) jobId
       = Success 200 (jobId, \<lparr>j_status = Processing, j_progress = 0, j_message = msg, j_result = None,
                                j_error = None, j_createdAt = Some now\<rparr>)
   \<and> left_by_stretch (fst (processSpreadsheet_read js jobId upl now)) jobId
         (snd (processSpreadsheet_read js jobId upl now) \<noteq> None)
   \<and> left_by_stretch (fst (processSpreadsheet_analysed js jobId userId data an lim)) jobId
         (snd (processSpreadsheet_analysed js jobId userId data an lim) \<noteq> None)
   \<and> left_by_stretch (fst (processSpreadsheet_insert js d jobId userId n toInsert ok)) jobId False
   \<and> left_by_stretch (fst (processNamecard_start js jobId)) jobId (snd (processNamecard_start js jobId))
   \<and> left_by_stretch (fst (processNamecard_extracted js jobId ex)) jobId
         (snd (processNamecard_extracted js jobId ex) \<noteq> None)
   \<and> left_by_stretch (fst (processNamecard_save js d jobId userId st ok)) jobId False
   \<and> left_by_stretch (fst (processSpreadsheet js d jobId userId upl lim now an ok)) jobId False
   \<and> left_by_stretch (fst (processNamecard js d jobId userId ex ok)) jobId False
   \<and> (js jobId = Some j \<and> j_createdAt j = Some c \<and> t - retention_ms \<le> c
        \<longrightarrow> sweep js t jobId = Some j)
   \<and> (js jobId = Some j \<and> j_createdAt j = Some c \<and> c < t - retention_ms
        \<longrightarrow> sweep js t jobId = None
            \<and> get_status (sweep js t) (Some u) jobId = Failure 404 ''JOB_NOT_FOUND'')
   \<and> retention_ms = 3600000 \<and> sweep_interval_ms = 900000
   \<and> (js jobId = Some j \<and> j_createdAt j = Some c \<and> start \<le> c + retention_ms
        \<longrightarrow> (\<exists>k. c + retention_ms < sweep_time start k
                 \<and> sweep_time start k \<le> c + retention_ms + sweep_interval_ms
                 \<and> sweep js (sweep_time start k) jobId = None))"
proof -
  have created: "create_job js jobId msg now jobId
     = Some \<lparr>j_status = Processing, j_progress = 0, j_message = msg, j_result = None,
             j_error = None, j_createdAt = Some now\<rparr>"
    by (simp add: create_job_def)
  have fetched: "get_status (create_job js jobId msg now) (Some u) jobId
       = Success 200 (jobId, \<lparr>j_status = Processing, j_progress = 0, j_message = msg, j_result = None,
                                j_error = None, j_createdAt = Some now\<rparr>)"
    by (simp add: get_status_def created)
  have young: "js jobId = Some j \<and> j_createdAt j = Some c \<and> t - retention_ms \<le> c
        \<longrightarrow> sweep js t jobId = Some j"
    using sweep_young by blast
  have old: "js jobId = Some j \<and> j_createdAt j = Some c \<and> c < t - retention_ms
        \<longrightarrow> sweep js t jobId = None
            \<and> get_status (sweep js t) (Some u) jobId = Failure 404 ''JOB_NOT_FOUND''"
    using sweep_old by blast
  have cvals: "retention_ms = 3600000" "sweep_interval_ms = 900000"
    by (simp_all add: retention_ms_def sweep_interval_ms_def)
  have timer: "js jobId = Some j \<and> j_createdAt j = Some c \<and> start \<le> c + retention_ms
        \<longrightarrow> (\<exists>k. c + retention_ms < sweep_time start k
                 \<and> sweep_time start k \<le> c + retention_ms + sweep_interval_ms
                 \<and> sweep js (sweep_time start k) jobId = None)"
  proof
    assume h: "js jobId = Some j \<and> j_createdAt j = Some c \<and> start \<le> c + retention_ms"
    then obtain k where k: "c + retention_ms < sweep_time start k"
      "sweep_time start k \<le> c + retention_ms + sweep_interval_ms"
      using next_sweep_after_expiry by blast
    from k(1) have "c < sweep_time start k - retention_ms" by simp
    with h have "sweep js (sweep_time start k) jobId = None" using sweep_old(1) by blast
    with k show "\<exists>k. c + retention_ms < sweep_time start k
                 \<and> sweep_time start k \<le> c + retention_ms + sweep_interval_ms
                 \<and> sweep js (sweep_time start k) jobId = None" by blast
  qed
  note parts = created fetched stretch_read stretch_analysed stretch_insert stretch_card_start
    stretch_card_extracted stretch_card_save worker_spreadsheet_ends worker_namecard_ends
    young old cvals timer
  show ?thesis by (intro conjI parts)
qed



text \<open>
  The first stretch of the spreadsheet worker runs inside the upload request, so when the
  request is answered the entry already stands at progress 30.
\<close>

lemma upload_answered_at_progress_30:
  "fst (processSpreadsheet_read (create_job js jobId msg now) jobId (Sheet data) now) jobId
     = Some (processing_job 30 (''Found '' @ string_of_nat (length data) @ '' rows. Analyzing...'') (Some now))"
  by (simp add: processSpreadsheet_read_def Let_def set_keeping_created_def processing_job_def)

text \<open>The request run to the end of its worker is the answered request followed by the two
  remaining stretches.\<close>

lemma post_spreadsheet_stretches:
  "post_spreadsheet js d token_user rate_limited upl jobId now an insert_ok
     = (case post_spreadsheet_answered js d token_user rate_limited upl jobId now of
          (resp, js1, None) \<Rightarrow> (resp, js1, d)
        | (resp, js1, Some (userId, lim, data)) \<Rightarrow>
            (resp,
             case processSpreadsheet_analysed js1 jobId userId data an (Some lim) of
               (js2, None) \<Rightarrow> (js2, d)
             | (js2, Some toInsert) \<Rightarrow>
                 processSpreadsheet_insert js2 d jobId userId (length data) toInsert insert_ok))"
  by (simp add: post_spreadsheet_def post_spreadsheet_answered_def processSpreadsheet_def
           split: sum.splits prod.splits option.splits)

text \<open>An accepted upload is answered with its job stored under the job id: still in
  \<open>processing\<close> when the worker waits, terminal when it has already ended; any authenticated
  caller can fetch it.\<close>

lemma post_spreadsheet_answered_entry:
  assumes "post_spreadsheet_answered js d token_user rate_limited upl jobId now = (Success st jid, js1, k)"
  shows "st = 202 \<and> jid = jobId \<and> left_by_stretch js1 jobId (k \<noteq> None)
         \<and> (\<exists>j. js1 jobId = Some j \<and> get_status js1 (Some caller) jobId = Success 200 (jobId, j))"
proof -
  from assms obtain k0 where
    r: "processSpreadsheet_read (create_job js jobId ''Starting file processing...'' now) jobId upl now = (js1, k0)"
    and s: "st = 202" "jid = jobId" and k: "(k \<noteq> None) = (k0 \<noteq> None)"
    by (auto simp: post_spreadsheet_answered_def split: sum.splits prod.splits option.splits if_splits)
  from stretch_read [of "create_job js jobId ''Starting file processing...'' now" jobId upl now] r k
  have l: "left_by_stretch js1 jobId (k \<noteq> None)" by simp
  then obtain j where "js1 jobId = Some j" by (auto simp: left_by_stretch_def)
  then have "get_status js1 (Some caller) jobId = Success 200 (jobId, j)"
    by (simp add: get_status_def)
  with s l \<open>js1 jobId = Some j\<close> show ?thesis by blast
qed

text \<open>An accepted upload whose worker runs to its end leaves a terminal entry.\<close>

lemma post_spreadsheet_ends:
  assumes "post_spreadsheet js d token_user rate_limited upl jobId now an insert_ok = (Success st jid, js1, d1)"
  shows "jid = jobId \<and> left_by_stretch js1 jobId False"
proof (cases "authenticateToken d token_user")
  case (Inl e)
  with assms show ?thesis by (cases e) (simp add: post_spreadsheet_def)
next
  case (Inr req)
  show ?thesis
  proof (cases "checkContactLimit req")
    case (Inl e)
    with assms Inr show ?thesis by (cases e) (simp add: post_spreadsheet_def split: if_splits)
  next
    case lim: (Inr lim)
    let ?uid = "case req_user req of None \<Rightarrow> [] | Some u \<Rightarrow> u"
    let ?w = "processSpreadsheet (create_job js jobId ''Starting file processing...'' now) d jobId ?uid upl
                (Some lim) now an insert_ok"
    from assms Inr lim have "jid = jobId" "js1 = fst ?w"
      by (auto simp: post_spreadsheet_def split: if_splits)
    with worker_spreadsheet_ends [of "create_job js jobId ''Starting file processing...'' now" d jobId ?uid upl
           "Some lim" now an insert_ok]
    show ?thesis by simp
  qed
qed

lemma post_namecard_ends:
  assumes "post_namecard js d token_user rate_limited has_file jobId now ex insert_ok = (Success st jid, js1, d1)"
  shows "jid = jobId \<and> left_by_stretch js1 jobId False"
proof (cases "authenticateToken d token_user")
  case (Inl e)
  with assms show ?thesis by (cases e) (simp add: post_namecard_def)
next
  case (Inr req)
  let ?uid = "case req_user req of None \<Rightarrow> [] | Some u \<Rightarrow> u"
  let ?w = "processNamecard (create_job js jobId ''Processing business card...'' now) d jobId ?uid ex insert_ok"
  from assms Inr have "jid = jobId" "js1 = fst ?w"
    by (auto simp: post_namecard_def split: if_splits)
  with worker_namecard_ends [of "create_job js jobId ''Processing business card...'' now" d jobId ?uid ex insert_ok]
  show ?thesis by simp
qed

text \<open>An entry without \<open>createdAt\<close> survives every sweep.\<close>

lemma unstamped_entry_never_swept:
  assumes "js jobId = Some j" "j_createdAt j = None"
  shows "sweep js t jobId = Some j"
  using assms by (simp add: sweep_def)

text \<open>Once its worker has ended nothing writes to a job again, so an entry a sweep has deleted
  stays deleted under every later sweep.\<close>

lemma swept_stays_swept:
  assumes "js jobId = None"
  shows "fold (\<lambda>t js. sweep js t) ts js jobId = None"
  using assms by (induction ts arbitrary: js) (simp_all add: sweep_def)

text \<open>
  A worker that finds its entry gone fails on reading \<open>createdAt\<close>, and its \<open>catch\<close> block
  writes a failed entry without \<open>createdAt\<close>, which every later sweep keeps.
\<close>

lemma swept_entry_written_back:
  assumes "js jobId = None"
  shows "\<exists>j. fst (processSpreadsheet_analysed js jobId userId data an lim) jobId = Some j
           \<and> j_status j = Failed \<and> j_createdAt j = None
           \<and> sweep (fst (processSpreadsheet_analysed js jobId userId data an lim)) t jobId = Some j"
  using assms
  by (cases an)
     (simp_all add: processSpreadsheet_analysed_def set_keeping_created_def processing_failed_def sweep_def)

text \<open>
  C5 fails for a job whose worker is still waiting when the retention hour is over. A user
  uploads a sheet at clock reading 0 and is answered with the job at progress 30. The analysis
  has not arrived when the timer fires 75 minutes later: the sweep deletes the entry and the
  look-up answers not-found. Then the analysis arrives. The worker's next write reads
  \<open>createdAt\<close> of the deleted entry and throws; the \<open>catch\<close> block stores the job again, as
  failed and without \<open>createdAt\<close>. From then on the look-up returns the job, and the sweeps
  that follow, 90 minutes and a day after the upload, leave it in place.
\<close>

theorem swept_job_written_back:
  "fst (post_spreadsheet_answered Map.empty example_db (Some ''u1'') False (Sheet example_rows) ''job-1'' 0)
     = Success 202 ''job-1''
   \<and> snd (snd (post_spreadsheet_answered Map.empty example_db (Some ''u1'') False (Sheet example_rows) ''job-1'' 0))
       = Some (''u1'', example_limit, example_rows)
   \<and> get_status answered_jobs (Some ''u1'') ''job-1''
       = Success 200 (''job-1'', processing_job 30 ''Found 5 rows. Analyzing...'' (Some 0))
   \<and> sweep_time 0 4 = 0 + retention_ms + sweep_interval_ms
   \<and> get_status swept_jobs (Some ''u1'') ''job-1'' = Failure 404 ''JOB_NOT_FOUND''
   \<and> snd (processSpreadsheet_analysed swept_jobs ''job-1'' ''u1'' example_rows
               (Analysis (Some example_mapping)) (Some example_limit))
       = None
   \<and> get_status resumed_jobs (Some ''u1'') ''job-1''
       = Success 200
           (''job-1'',
            \<lparr>j_status = Failed, j_progress = 100, j_message = ''Processing failed'', j_result = None,
             j_error = Some ''Cannot read properties of undefined (reading 'createdAt')'',
             j_createdAt = None\<rparr>)
   \<and> get_status (sweep resumed_jobs (sweep_time 0 5)) (Some ''u1'') ''job-1''
       = get_status resumed_jobs (Some ''u1'') ''job-1''
   \<and> get_status (sweep resumed_jobs (sweep_time 0 95)) (Some ''u1'') ''job-1''
       = get_status resumed_jobs (Some ''u1'') ''job-1''"
  by (intro conjI; code_simp)

section \<open>Properties of the spreadsheet import\<close>

lemma transform_rows_contacts:
  "fst (transform_rows userId cm cat i rows)
     = (case cm of
          None \<Rightarrow> []
        | Some m \<Rightarrow> filter (\<lambda>c. \<not> unidentifiable c) (map (import_contact userId m cat) rows))"
proof (cases cm)
  case None
  have "fst (transform_rows userId None cat i rows) = []"
    by (induction rows arbitrary: i) (simp_all add: case_prod_beta)
  with None show ?thesis by simp
next
  case (Some m)
  have "fst (transform_rows userId (Some m) cat i rows)
          = filter (\<lambda>c. \<not> unidentifiable c) (map (import_contact userId m cat) rows)"
    by (induction rows arbitrary: i) (simp_all add: case_prod_beta Let_def)
  with Some show ?thesis by simp
qed

lemma transform_rows_errors:
  "length (snd (transform_rows userId cm cat i rows))
     = length (filter (row_is_error userId cm cat) rows)"
proof (cases cm)
  case None
  have "length (snd (transform_rows userId None cat i rows))
          = length (filter (row_is_error userId None cat) rows)"
    by (induction rows arbitrary: i) (simp_all add: case_prod_beta row_is_error_def)
  with None show ?thesis by simp
next
  case (Some m)
  have "length (snd (transform_rows userId (Some m) cat i rows))
          = length (filter (row_is_error userId (Some m) cat) rows)"
    by (induction rows arbitrary: i) (simp_all add: case_prod_beta Let_def row_is_error_def)
  with Some show ?thesis by simp
qed

lemma outcome_partition:
  "count_outcome RowImported userId cm cat skip ex rows
     + count_outcome RowDuplicate userId cm cat skip ex rows
     + count_outcome RowError userId cm cat skip ex rows = length rows"
proof (induction rows)
  case Nil
  show ?case by (simp add: count_outcome_def)
next
  case (Cons r rows)
  then show ?case
    by (cases "outcome_of userId cm cat skip ex r") (simp_all add: count_outcome_def)
qed

lemma count_error_rows:
  "count_outcome RowError userId cm cat skip ex rows = length (filter (row_is_error userId cm cat) rows)"
proof -
  have "outcome_of userId cm cat skip ex r = RowError \<longleftrightarrow> row_is_error userId cm cat r" for r
    by (simp add: outcome_of_def row_is_error_def split: option.splits)
  then show ?thesis by (simp add: count_outcome_def)
qed

lemma count_duplicate_rows:
  "count_outcome RowDuplicate userId cm cat skip ex rows
     = (if skip then length (filter (isDupe ex) (fst (transform_rows userId cm cat i rows))) else 0)"
proof (cases cm)
  case None
  then show ?thesis by (simp add: count_outcome_def outcome_of_def transform_rows_contacts)
next
  case (Some m)
  have "length (filter (\<lambda>r. outcome_of userId (Some m) cat skip ex r = RowDuplicate) rows)
          = (if skip then length (filter (isDupe ex)
               (filter (\<lambda>c. \<not> unidentifiable c) (map (import_contact userId m cat) rows))) else 0)"
    by (induction rows) (simp_all add: outcome_of_def)
  with Some show ?thesis by (simp add: count_outcome_def transform_rows_contacts)
qed

lemma count_imported_rows:
  "count_outcome RowImported userId cm cat skip ex rows
     = (if skip then length (filter (\<lambda>c. \<not> isDupe ex c) (fst (transform_rows userId cm cat i rows)))
        else length (fst (transform_rows userId cm cat i rows)))"
proof (cases cm)
  case None
  then show ?thesis by (simp add: count_outcome_def outcome_of_def transform_rows_contacts)
next
  case (Some m)
  have "length (filter (\<lambda>r. outcome_of userId (Some m) cat skip ex r = RowImported) rows)
          = (if skip then length (filter (\<lambda>c. \<not> isDupe ex c)
               (filter (\<lambda>c. \<not> unidentifiable c) (map (import_contact userId m cat) rows)))
             else length (filter (\<lambda>c. \<not> unidentifiable c) (map (import_contact userId m cat) rows)))"
    by (induction rows) (simp_all add: outcome_of_def)
  with Some show ?thesis by (simp add: count_outcome_def transform_rows_contacts)
qed


lemma spreadsheet_import_summary:
  assumes "spreadsheet_import d userId lim (Sheet data) mappings skip cat existing ok = (Success st s, d')"
  shows "total s = length data"
    and "errors s = length (snd (transform_rows userId (mapping_object mappings) cat 0 data))"
    and "duplicates s
           = (if skip then length (filter (isDupe (case existing of None \<Rightarrow> [] | Some rows \<Rightarrow> rows))
                                    (fst (transform_rows userId (mapping_object mappings) cat 0 data)))
              else 0)"
    and "imported s
           = (if skip then length (filter (\<lambda>c. \<not> isDupe (case existing of None \<Rightarrow> [] | Some rows \<Rightarrow> rows) c)
                                    (fst (transform_rows userId (mapping_object mappings) cat 0 data)))
              else length (fst (transform_rows userId (mapping_object mappings) cat 0 data)))"
    and "skipped s = int (length data) - int (imported s) - int (errors s)"
    and "length (db_contacts d') = length (db_contacts d) + imported s"
  using assms
  by (auto simp: spreadsheet_import_def mapping_object_def Let_def case_prod_beta insert_contacts_def
                 increment_contact_count_def
           split: if_splits option.splits)

text \<open>
  C4: whenever the synchronous import answers with its summary, every row of the sheet has
  exactly one outcome and the counters count the rows by outcome: \<open>imported\<close> the imported
  rows, \<open>duplicates\<close> the duplicates, \<open>errors\<close> the errors, so that
  \<open>imported + duplicates + errors = total\<close>, the number of rows. As many rows are added to
  the store as were imported. The \<open>skipped\<close> counter repeats the number of duplicates.
\<close>

theorem import_row_accounting:
  assumes "spreadsheet_import d userId lim (Sheet data) mappings skip cat existing ok = (Success st s, d')"
  shows "imported s + duplicates s + errors s = total s
       \<and> total s = length data
       \<and> imported s = count_outcome RowImported userId (mapping_object mappings) cat skip
                          (case existing of None \<Rightarrow> [] | Some rows \<Rightarrow> rows) data
       \<and> duplicates s = count_outcome RowDuplicate userId (mapping_object mappings) cat skip
                          (case existing of None \<Rightarrow> [] | Some rows \<Rightarrow> rows) data
       \<and> errors s = count_outcome RowError userId (mapping_object mappings) cat skip
                          (case existing of None \<Rightarrow> [] | Some rows \<Rightarrow> rows) data
       \<and> length (db_contacts d') = length (db_contacts d) + imported s
       \<and> skipped s = int (duplicates s)"
proof -
  let ?cm = "mapping_object mappings"
  let ?ex = "case existing of None \<Rightarrow> [] | Some rows \<Rightarrow> rows"
  note sm = spreadsheet_import_summary [OF assms]
  have i: "imported s = count_outcome RowImported userId ?cm cat skip ?ex data"
    using sm(4) count_imported_rows [of userId ?cm cat skip ?ex data 0] by simp
  have du: "duplicates s = count_outcome RowDuplicate userId ?cm cat skip ?ex data"
    using sm(3) count_duplicate_rows [of userId ?cm cat skip ?ex data 0] by simp
  have e: "errors s = count_outcome RowError userId ?cm cat skip ?ex data"
    using sm(2) count_error_rows [of userId ?cm cat skip ?ex data] transform_rows_errors [of userId ?cm cat 0 data]
    by simp
  have t: "total s = length data" by (rule sm(1))
  have sum: "imported s + duplicates s + errors s = total s"
    using outcome_partition [of userId ?cm cat skip ?ex data] i du e t by simp
  have sk: "skipped s = int (duplicates s)"
    using sm(5) sum t by simp
  from sum t i du e sm(6) sk show ?thesis by (intro conjI)
qed

theorem import_row_accounting_witness:
  "spreadsheet_import example_db ''u1'' (Some \<lparr>cl_current = 0, cl_max = 50, cl_remaining = 50\<rparr>)
       (Sheet example_rows) (Mappings example_mapping) True ''Lead'' (Some example_existing) True
     = (Success 200
          \<lparr>imported = 4, total = 5, skipped = 1, duplicates = 1, errors = 0, errorDetails = [],
           duplicateDetails = [\<lparr>dd_name = ''Bala'', dd_email = Some ''bala@example.com'', dd_phone = None\<rparr>]\<rparr>,
        snd (spreadsheet_import example_db ''u1'' (Some \<lparr>cl_current = 0, cl_max = 50, cl_remaining = 50\<rparr>)
               (Sheet example_rows) (Mappings example_mapping) True ''Lead'' (Some example_existing) True))
   \<and> (4::nat) + 1 + 0 = 5
   \<and> count_outcome RowImported ''u1'' (mapping_object (Mappings example_mapping)) ''Lead'' True
         example_existing example_rows = 4"
proof -
  let ?s = "\<lparr>imported = 4, total = 5, skipped = 1, duplicates = 1, errors = 0, errorDetails = [],
           duplicateDetails = [\<lparr>dd_name = ''Bala'', dd_email = Some ''bala@example.com'', dd_phone = None\<rparr>]\<rparr>"
  have f: "fst (spreadsheet_import example_db ''u1'' (Some \<lparr>cl_current = 0, cl_max = 50, cl_remaining = 50\<rparr>)
       (Sheet example_rows) (Mappings example_mapping) True ''Lead'' (Some example_existing) True)
     = Success 200 ?s"
    by code_simp
  then have h: "spreadsheet_import example_db ''u1'' (Some \<lparr>cl_current = 0, cl_max = 50, cl_remaining = 50\<rparr>)
       (Sheet example_rows) (Mappings example_mapping) True ''Lead'' (Some example_existing) True
     = (Success 200 ?s,
        snd (spreadsheet_import example_db ''u1'' (Some \<lparr>cl_current = 0, cl_max = 50, cl_remaining = 50\<rparr>)
               (Sheet example_rows) (Mappings example_mapping) True ''Lead'' (Some example_existing) True))"
    by (simp add: prod_eq_iff)
  note t = import_row_accounting [OF h]
  from t [THEN conjunct1] have a: "(4::nat) + 1 + 0 = 5" by simp
  from t [THEN conjunct2, THEN conjunct2, THEN conjunct1]
  have b: "count_outcome RowImported ''u1'' (mapping_object (Mappings example_mapping)) ''Lead'' True
         example_existing example_rows = 4" by simp
  from h a b show ?thesis by (intro conjI)
qed

section \<open>Imports and the quota\<close>

lemma sync_import_over_quota:
  assumes "mappings \<noteq> BadJson" "cl_remaining lim < int (length data)"
  shows "spreadsheet_import d userId (Some lim) (Sheet data) mappings skip cat existing ok
           = (Failure 403 ''CONTACT_LIMIT_EXCEEDED'', d)"
  using assms by (simp add: spreadsheet_import_def)

lemma bulk_over_quota:
  assumes "cs \<noteq> []" "length cs \<le> 500" "cl_remaining lim < int (length cs)"
  shows "bulk_create d userId (Some lim) (Some cs) ok = (Failure 403 ''CONTACT_LIMIT_EXCEEDED'', d)"
  using assms by (simp add: bulk_create_def)

lemma worker_truncates:
  assumes pos: "0 < cl_remaining lim" and ne: "worker_valid userId m data \<noteq> []"
  shows "processSpreadsheet (create_job js jobId msg now) d jobId userId (Sheet data) (Some lim) now
           (Analysis (Some m)) True
         = ((create_job js jobId msg now)(jobId \<mapsto>
              completed_job
                (''Successfully imported ''
                   @ string_of_nat (length (take (nat (cl_remaining lim)) (worker_valid userId m data)))
                   @ '' contacts'')
                (Imported (length (take (nat (cl_remaining lim)) (worker_valid userId m data)))
                   (length data)
                   (Some (int (length data)
                            - int (length (take (nat (cl_remaining lim)) (worker_valid userId m data))))))
                (Some now)),
            increment_contact_count
              (d\<lparr>db_contacts := db_contacts d @ take (nat (cl_remaining lim)) (worker_valid userId m data)\<rparr>)
              userId (int (length (take (nat (cl_remaining lim)) (worker_valid userId m data)))))"
proof -
  let ?js0 = "create_job js jobId msg now"
  let ?ins = "take (nat (cl_remaining lim)) (worker_valid userId m data)"
  have ins_ne: "?ins \<noteq> []" using pos ne by (cases "worker_valid userId m data") (auto simp: take_Cons')
  have r: "processSpreadsheet_read ?js0 jobId (Sheet data) now
             = (?js0(jobId \<mapsto> processing_job 30 (''Found '' @ string_of_nat (length data) @ '' rows. Analyzing...'') (Some now)),
                Some data)"
    by (simp add: processSpreadsheet_read_def Let_def set_keeping_created_def processing_job_def create_job_def)
  let ?js1 = "?js0(jobId \<mapsto> processing_job 30 (''Found '' @ string_of_nat (length data) @ '' rows. Analyzing...'') (Some now))"
  have sl: "slice_remaining (Some lim) (worker_valid userId m data) = ?ins"
    using pos by (simp add: slice_remaining_def)
  have a: "processSpreadsheet_analysed ?js1 jobId userId data (Analysis (Some m)) (Some lim)
             = (?js0(jobId \<mapsto> processing_job 50 ''Importing contacts...'' (Some now)), Some ?ins)"
    using ins_ne sl
    by (simp add: processSpreadsheet_analysed_def Let_def set_keeping_created_def processing_job_def
          worker_valid_def)
  let ?js2 = "?js0(jobId \<mapsto> processing_job 50 ''Importing contacts...'' (Some now))"
  have i: "processSpreadsheet_insert ?js2 d jobId userId (length data) ?ins True
             = (?js0(jobId \<mapsto>
                  completed_job (''Successfully imported '' @ string_of_nat (length ?ins) @ '' contacts'')
                    (Imported (length ?ins) (length data) (Some (int (length data) - int (length ?ins))))
                    (Some now)),
                increment_contact_count (d\<lparr>db_contacts := db_contacts d @ ?ins\<rparr>) userId (int (length ?ins)))"
    by (simp add: processSpreadsheet_insert_def insert_contacts_def Let_def set_keeping_created_def
          processing_job_def)
  show ?thesis
    by (simp only: processSpreadsheet_def r prod.case option.case a i)
qed


text \<open>
  C1, as the code has it: the synchronous import, which is the route that skips duplicates,
  refuses a sheet with more rows than the remaining quota as a whole, with
  \<open>CONTACT_LIMIT_EXCEEDED\<close> and before any row is read, and so does the bulk route. Only the
  background worker of \<open>POST /api/uploads/spreadsheet\<close> cuts the import down to the remaining
  quota: it inserts the first \<open>remaining\<close> identifiable rows, without looking for duplicates,
  and reports how many it imported, the number of rows, and the difference as skipped.
\<close>

theorem import_over_quota:
  "(mappings \<noteq> BadJson \<and> cl_remaining lim < int (length data) \<longrightarrow>
      spreadsheet_import d userId (Some lim) (Sheet data) mappings skip cat existing ok
        = (Failure 403 ''CONTACT_LIMIT_EXCEEDED'', d))
   \<and> (cs \<noteq> [] \<and> length cs \<le> 500 \<and> cl_remaining lim < int (length cs) \<longrightarrow>
      bulk_create d userId (Some lim) (Some cs) ok = (Failure 403 ''CONTACT_LIMIT_EXCEEDED'', d))
   \<and> (0 < cl_remaining lim \<and> worker_valid userId m data \<noteq> [] \<longrightarrow>
      processSpreadsheet (create_job js jobId msg now) d jobId userId (Sheet data) (Some lim) now
           (Analysis (Some m)) True
         = ((create_job js jobId msg now)(jobId \<mapsto>
              completed_job
                (''Successfully imported ''
                   @ string_of_nat (length (take (nat (cl_remaining lim)) (worker_valid userId m data)))
                   @ '' contacts'')
                (Imported (length (take (nat (cl_remaining lim)) (worker_valid userId m data)))
                   (length data)
                   (Some (int (length data)
                            - int (length (take (nat (cl_remaining lim)) (worker_valid userId m data))))))
                (Some now)),
            increment_contact_count
              (d\<lparr>db_contacts := db_contacts d @ take (nat (cl_remaining lim)) (worker_valid userId m data)\<rparr>)
              userId (int (length (take (nat (cl_remaining lim)) (worker_valid userId m data))))))"
proof (intro conjI impI)
  assume "mappings \<noteq> BadJson \<and> cl_remaining lim < int (length data)"
  then show "spreadsheet_import d userId (Some lim) (Sheet data) mappings skip cat existing ok
        = (Failure 403 ''CONTACT_LIMIT_EXCEEDED'', d)"
    by (simp add: sync_import_over_quota)
next
  assume "cs \<noteq> [] \<and> length cs \<le> 500 \<and> cl_remaining lim < int (length cs)"
  then show "bulk_create d userId (Some lim) (Some cs) ok = (Failure 403 ''CONTACT_LIMIT_EXCEEDED'', d)"
    by (simp add: bulk_over_quota)
next
  assume h: "0 < cl_remaining lim \<and> worker_valid userId m data \<noteq> []"
  then have p: "0 < cl_remaining lim" and n: "worker_valid userId m data \<noteq> []" by simp_all
  show "processSpreadsheet (create_job js jobId msg now) d jobId userId (Sheet data) (Some lim) now
           (Analysis (Some m)) True
         = ((create_job js jobId msg now)(jobId \<mapsto>
              completed_job
                (''Successfully imported ''
                   @ string_of_nat (length (take (nat (cl_remaining lim)) (worker_valid userId m data)))
                   @ '' contacts'')
                (Imported (length (take (nat (cl_remaining lim)) (worker_valid userId m data)))
                   (length data)
                   (Some (int (length data)
                            - int (length (take (nat (cl_remaining lim)) (worker_valid userId m data))))))
                (Some now)),
            increment_contact_count
              (d\<lparr>db_contacts := db_contacts d @ take (nat (cl_remaining lim)) (worker_valid userId m data)\<rparr>)
              userId (int (length (take (nat (cl_remaining lim)) (worker_valid userId m data)))))"
    by (rule worker_truncates [OF p n])
qed

text \<open>
  The scenario of the specification on the synchronous route: base plan, 249999 of 250000
  contacts, five rows of which one is a duplicate. The quota check leaves 1, and the import
  is refused as a whole; nothing is inserted.
\<close>

theorem import_scenario_refused:
  "checkContactLimit \<lparr>req_user = Some ''u1'', req_userProfile = db_profiles example_db ''u1''\<rparr>
     = Inr \<lparr>cl_current = 249999, cl_max = 250000, cl_remaining = 1\<rparr>
   \<and> length example_rows = 5
   \<and> post_spreadsheet_import example_db (Some ''u1'') (Sheet example_rows) (Mappings example_mapping)
         True ''Lead'' (Some example_existing) True
       = (Failure 403 ''CONTACT_LIMIT_EXCEEDED'', example_db)"
proof -
  have g: "checkContactLimit \<lparr>req_user = Some ''u1'', req_userProfile = db_profiles example_db ''u1''\<rparr>
     = Inr \<lparr>cl_current = 249999, cl_max = 250000, cl_remaining = 1\<rparr>"
    by (simp add: checkContactLimit_def example_db_def userPlan_of_def maxContacts_of_def planLimits_def
          currentCount_of_def Let_def)
  have l: "length example_rows = 5" by (simp add: example_rows_def)
  have "post_spreadsheet_import example_db (Some ''u1'') (Sheet example_rows) (Mappings example_mapping)
         True ''Lead'' (Some example_existing) True
       = spreadsheet_import example_db ''u1'' (Some \<lparr>cl_current = 249999, cl_max = 250000, cl_remaining = 1\<rparr>)
           (Sheet example_rows) (Mappings example_mapping) True ''Lead'' (Some example_existing) True"
    by (simp add: post_spreadsheet_import_def authenticateToken_def g)
  also have "\<dots> = (Failure 403 ''CONTACT_LIMIT_EXCEEDED'', example_db)"
    by (simp add: spreadsheet_import_def l)
  finally show ?thesis using g l by simp
qed


theorem import_over_quota_witness:
  "(Mappings example_mapping \<noteq> BadJson \<and> cl_remaining example_limit < int (length example_rows))
   \<and> spreadsheet_import example_db ''u1'' (Some example_limit) (Sheet example_rows)
         (Mappings example_mapping) True ''Lead'' (Some example_existing) True
       = (Failure 403 ''CONTACT_LIMIT_EXCEEDED'', example_db)
   \<and> ([example_input, example_input] \<noteq> [] \<and> length [example_input, example_input] \<le> 500
        \<and> cl_remaining example_limit < int (length [example_input, example_input]))
   \<and> bulk_create example_db ''u1'' (Some example_limit) (Some [example_input, example_input]) True
       = (Failure 403 ''CONTACT_LIMIT_EXCEEDED'', example_db)
   \<and> (0 < cl_remaining example_limit \<and> worker_valid ''u1'' example_mapping example_rows \<noteq> [])
   \<and> fst (processSpreadsheet (create_job Map.empty ''job-1'' ''Starting file processing...'' 0) example_db
              ''job-1'' ''u1'' (Sheet example_rows) (Some example_limit) 0 (Analysis (Some example_mapping)) True)
         ''job-1''
       = Some (completed_job ''Successfully imported 1 contacts'' (Imported 1 5 (Some 4)) (Some 0))"
proof -
  have h1: "Mappings example_mapping \<noteq> BadJson \<and> cl_remaining example_limit < int (length example_rows)"
    by (simp add: example_limit_def example_rows_def)
  have h2: "[example_input, example_input] \<noteq> [] \<and> length [example_input, example_input] \<le> 500
        \<and> cl_remaining example_limit < int (length [example_input, example_input])"
    by (simp add: example_limit_def)
  have v: "worker_valid ''u1'' example_mapping example_rows \<noteq> []" by code_simp
  have h3: "0 < cl_remaining example_limit \<and> worker_valid ''u1'' example_mapping example_rows \<noteq> []"
    using v by (simp add: example_limit_def)
  have k: "min (length (worker_valid ''u1'' example_mapping example_rows)) (nat (cl_remaining example_limit)) = 1"
    by code_simp
  have n: "length example_rows = 5" by (simp add: example_rows_def)
  have one: "string_of_nat (Suc 0) = ''1''" by code_simp
  note t = import_over_quota [where d = example_db and userId = "''u1''" and lim = example_limit
      and data = example_rows and mappings = "Mappings example_mapping" and skip = True
      and cat = "''Lead''" and existing = "Some example_existing" and ok = True
      and cs = "[example_input, example_input]" and m = example_mapping and js = Map.empty
      and jobId = "''job-1''" and msg = "''Starting file processing...''" and now = 0]
  note c1 = t [THEN conjunct1, THEN mp, OF h1]
  note c2 = t [THEN conjunct2, THEN conjunct1, THEN mp, OF h2]
  note c3 = t [THEN conjunct2, THEN conjunct2, THEN mp, OF h3]
  have c3': "fst (processSpreadsheet (create_job Map.empty ''job-1'' ''Starting file processing...'' 0) example_db
              ''job-1'' ''u1'' (Sheet example_rows) (Some example_limit) 0 (Analysis (Some example_mapping)) True)
         ''job-1''
       = Some (completed_job ''Successfully imported 1 contacts'' (Imported 1 5 (Some 4)) (Some 0))"
    unfolding c3 by (simp add: k n one)
  show ?thesis
    by (rule conjI [OF h1 conjI [OF c1 conjI [OF h2 conjI [OF c2 conjI [OF h3 c3']]]]])
qed

section \<open>The quota on every way to create a contact\<close>

lemma plan_ceiling:
  "maxContacts_of ''free'' = 50" "maxContacts_of ''trial'' = 50"
  "maxContacts_of ''base'' = 250000" "maxContacts_of ''enterprise'' = 1000000"
  "plan \<notin> {''free'', ''trial'', ''base'', ''enterprise''} \<Longrightarrow> maxContacts_of plan = 50"
  "userPlan_of None = ''free''"
  "userPlan_of (Some \<lparr>subscription_plan = None, contact_count = c\<rparr>) = ''free''"
  by (simp_all add: maxContacts_of_def planLimits_def userPlan_of_def)

lemma checkContactLimit_decision:
  assumes "req_user req \<noteq> None"
  shows "checkContactLimit req
           = (if maxContacts_of (userPlan_of (req_userProfile req)) \<le> currentCount_of (req_userProfile req)
              then Inl (403, ''CONTACT_LIMIT_REACHED'')
              else Inr \<lparr>cl_current = currentCount_of (req_userProfile req),
                        cl_max = maxContacts_of (userPlan_of (req_userProfile req)),
                        cl_remaining = maxContacts_of (userPlan_of (req_userProfile req))
                                         - currentCount_of (req_userProfile req)\<rparr>)"
  using assms by (simp add: checkContactLimit_def Let_def)

lemma checkContactLimit_remaining:
  assumes "checkContactLimit req = Inr lim"
  shows "0 < cl_remaining lim"
    and "cl_remaining lim = max 0 (cl_max lim - cl_current lim)"
    and "cl_max lim = maxContacts_of (userPlan_of (req_userProfile req))"
    and "cl_current lim = currentCount_of (req_userProfile req)"
  using assms by (auto simp: checkContactLimit_def Let_def split: if_splits)

text \<open>
  C2 at the business-card route: a tenant on the free plan who already holds 50 contacts is
  refused by the quota check, and so by \<open>POST /api/contacts\<close>; the same tenant's
  \<open>POST /api/uploads/namecard\<close> is accepted, inserts a contact and raises the counter to 51.
\<close>

theorem namecard_upload_bypasses_quota:
  "checkContactLimit \<lparr>req_user = Some ''u2'', req_userProfile = db_profiles full_db ''u2''\<rparr>
     = Inl (403, ''CONTACT_LIMIT_REACHED'')
   \<and> post_contacts full_db (Some ''u2'') False example_input False True
       = (Failure 403 ''CONTACT_LIMIT_REACHED'', full_db)
   \<and> fst (post_namecard Map.empty full_db (Some ''u2'') False True ''job-9'' 0
             (Extraction (Some example_card)) True)
       = Success 202 ''job-9''
   \<and> db_contacts (snd (snd (post_namecard Map.empty full_db (Some ''u2'') False True ''job-9'' 0
                               (Extraction (Some example_card)) True)))
       = [namecard_contact ''u2'' ''job-9'' example_card]
   \<and> db_profiles (snd (snd (post_namecard Map.empty full_db (Some ''u2'') False True ''job-9'' 0
                               (Extraction (Some example_card)) True))) ''u2''
       = Some \<lparr>subscription_plan = Some ''free'', contact_count = Some 51\<rparr>"
proof -
  have g: "checkContactLimit \<lparr>req_user = Some ''u2'', req_userProfile = db_profiles full_db ''u2''\<rparr>
     = Inl (403, ''CONTACT_LIMIT_REACHED'')"
    by (simp add: checkContactLimit_def full_db_def userPlan_of_def maxContacts_of_def planLimits_def
          currentCount_of_def Let_def)
  have p: "post_contacts full_db (Some ''u2'') False example_input False True
       = (Failure 403 ''CONTACT_LIMIT_REACHED'', full_db)"
    by (simp add: post_contacts_def authenticateToken_def g)
  have n: "post_namecard Map.empty full_db (Some ''u2'') False True ''job-9'' 0
             (Extraction (Some example_card)) True
           = (Success 202 ''job-9'',
              processNamecard (create_job Map.empty ''job-9'' ''Processing business card...'' 0) full_db
                ''job-9'' ''u2'' (Extraction (Some example_card)) True)"
    by (simp add: post_namecard_def authenticateToken_def)
  have c: "db_contacts (snd (snd (post_namecard Map.empty full_db (Some ''u2'') False True ''job-9'' 0
                               (Extraction (Some example_card)) True)))
       = [namecard_contact ''u2'' ''job-9'' example_card]"
    unfolding n processNamecard_success by (simp add: increment_contact_count_def full_db_def)
  have k: "db_profiles (snd (snd (post_namecard Map.empty full_db (Some ''u2'') False True ''job-9'' 0
                               (Extraction (Some example_card)) True))) ''u2''
       = Some \<lparr>subscription_plan = Some ''free'', contact_count = Some 51\<rparr>"
    unfolding n processNamecard_success by (simp add: increment_contact_count_def full_db_def)
  have f: "fst (post_namecard Map.empty full_db (Some ''u2'') False True ''job-9'' 0
             (Extraction (Some example_card)) True) = Success 202 ''job-9''"
    by (simp add: n)
  from g p f c k show ?thesis by (intro conjI)
qed


text \<open>
  The four routes that do run the quota check never add more rows than the headroom the user
  had when the request was authenticated.
\<close>

lemma increment_keeps_contacts:
  "db_contacts (increment_contact_count d userId n) = db_contacts d"
  by (simp add: increment_contact_count_def split: option.splits)

lemma quota_check_room:
  assumes "checkContactLimit \<lparr>req_user = Some uid, req_userProfile = db_profiles d uid\<rparr> = Inr lim"
  shows "cl_remaining lim = quota_room d uid" and "0 < cl_remaining lim"
  using assms by (auto simp: checkContactLimit_def quota_room_def Let_def split: if_splits)

lemma quota_check_refuses_room:
  assumes "checkContactLimit \<lparr>req_user = Some uid, req_userProfile = db_profiles d uid\<rparr> = Inl e"
  shows "quota_room d uid = 0"
  using assms by (auto simp: checkContactLimit_def quota_room_def Let_def split: if_splits)

lemma rows_added_same: "rows_added d d = 0"
  by (simp add: rows_added_def)

lemma quota_room_nonneg: "0 \<le> quota_room d uid"
  by (simp add: quota_room_def)

lemma post_contacts_within_quota:
  "rows_added d (snd (post_contacts d (Some uid) rate_limited body dup_found insert_ok)) \<le> quota_room d uid"
proof (cases "checkContactLimit \<lparr>req_user = Some uid, req_userProfile = db_profiles d uid\<rparr>")
  case (Inl e)
  then show ?thesis
    by (cases e) (simp add: post_contacts_def authenticateToken_def rows_added_same quota_room_nonneg)
next
  case (Inr lim)
  from quota_check_room [OF Inr] have r: "1 \<le> quota_room d uid" by simp
  have "rows_added d (snd (create_contact d uid body dup_found insert_ok)) \<le> 1"
    by (simp add: create_contact_def insert_contacts_def rows_added_def increment_keeps_contacts)
  with r Inr show ?thesis
    by (simp add: post_contacts_def authenticateToken_def rows_added_same quota_room_nonneg)
qed

lemma post_contacts_bulk_within_quota:
  "rows_added d (snd (post_contacts_bulk d (Some uid) contacts insert_ok)) \<le> quota_room d uid"
proof (cases "checkContactLimit \<lparr>req_user = Some uid, req_userProfile = db_profiles d uid\<rparr>")
  case (Inl e)
  then show ?thesis
    by (cases e) (simp add: post_contacts_bulk_def authenticateToken_def rows_added_same quota_room_nonneg)
next
  case (Inr lim)
  from quota_check_room [OF Inr] have r: "cl_remaining lim = quota_room d uid" "0 < cl_remaining lim" by simp_all
  have "rows_added d (snd (bulk_create d uid (Some lim) contacts insert_ok)) \<le> cl_remaining lim"
    using r(2)
    by (auto simp: bulk_create_def insert_contacts_def rows_added_def increment_keeps_contacts Let_def
             split: option.splits)
  with r Inr show ?thesis
    by (simp add: post_contacts_bulk_def authenticateToken_def)
qed

lemma spreadsheet_import_adds:
  "rows_added d (snd (spreadsheet_import d uid (Some lim) upl mappings skip cat existing ok))
     \<le> max 0 (cl_remaining lim)"
proof (cases upl)
  case NoFile
  then show ?thesis by (simp add: spreadsheet_import_def rows_added_same)
next
  case (Unreadable msg)
  then show ?thesis by (simp add: spreadsheet_import_def rows_added_same)
next
  case (Sheet data)
  show ?thesis
  proof (cases "mappings = BadJson \<or> cl_remaining lim < int (length data)")
    case True
    with Sheet show ?thesis by (auto simp: spreadsheet_import_def rows_added_same)
  next
    case False
    then have le: "int (length data) \<le> cl_remaining lim" and nb: "mappings \<noteq> BadJson" by simp_all
    let ?cm = "case mappings of Mappings m \<Rightarrow> Some m | _ \<Rightarrow> None"
    let ?c0 = "fst (transform_rows uid ?cm cat 0 data)"
    have c0: "length ?c0 \<le> length data"
      by (simp add: transform_rows_contacts split: option.splits)
    have f: "length (filter P ?c0) \<le> length data" for P
      using c0 length_filter_le [of P ?c0] by linarith
    have "rows_added d (snd (spreadsheet_import d uid (Some lim) (Sheet data) mappings skip cat existing ok))
            \<le> int (length data)"
      using nb le c0 f
      by (auto simp: spreadsheet_import_def Let_def case_prod_beta insert_contacts_def rows_added_def
                     increment_keeps_contacts)
    with le Sheet show ?thesis by simp
  qed
qed

lemma post_spreadsheet_import_within_quota:
  "rows_added d (snd (post_spreadsheet_import d (Some uid) upl mappings skip cat existing ok))
     \<le> quota_room d uid"
proof (cases "checkContactLimit \<lparr>req_user = Some uid, req_userProfile = db_profiles d uid\<rparr>")
  case (Inl e)
  then show ?thesis
    by (cases e) (simp add: post_spreadsheet_import_def authenticateToken_def rows_added_same quota_room_nonneg)
next
  case (Inr lim)
  from quota_check_room [OF Inr] have r: "cl_remaining lim = quota_room d uid" "0 < cl_remaining lim" by simp_all
  from spreadsheet_import_adds [of d uid lim upl mappings skip cat existing ok] r Inr
  show ?thesis by (simp add: post_spreadsheet_import_def authenticateToken_def)
qed

lemma slice_remaining_length:
  assumes "0 < cl_remaining lim"
  shows "int (length (slice_remaining (Some lim) xs)) \<le> cl_remaining lim"
  using assms by (simp add: slice_remaining_def)

lemma analysed_toInsert:
  assumes "processSpreadsheet_analysed js jobId uid data an (Some lim) = (js', Some toInsert)"
    and "0 < cl_remaining lim"
  shows "int (length toInsert) \<le> cl_remaining lim"
proof -
  from assms(1) obtain m where "toInsert = slice_remaining (Some lim)
      (filter (\<lambda>c. \<not> unidentifiable c) (map (worker_contact uid m) data))"
    by (auto simp: processSpreadsheet_analysed_def Let_def
             split: analysis.splits sum.splits option.splits if_splits)
  then show ?thesis using slice_remaining_length [OF assms(2)] by simp
qed

lemma insert_stretch_adds:
  "rows_added d (snd (processSpreadsheet_insert js d jobId uid n toInsert ok)) \<le> int (length toInsert)"
  by (auto simp: processSpreadsheet_insert_def insert_contacts_def rows_added_def Let_def
                 increment_keeps_contacts split: sum.splits)

lemma worker_adds:
  assumes "0 < cl_remaining lim"
  shows "rows_added d (snd (processSpreadsheet js d jobId uid upl (Some lim) now an ok)) \<le> cl_remaining lim"
proof -
  obtain js1 k where r: "processSpreadsheet_read js jobId upl now = (js1, k)"
    by (cases "processSpreadsheet_read js jobId upl now")
  show ?thesis
  proof (cases k)
    case None
    with r assms show ?thesis by (simp add: processSpreadsheet_def rows_added_same)
  next
    case (Some data)
    obtain js2 k2 where a: "processSpreadsheet_analysed js1 jobId uid data an (Some lim) = (js2, k2)"
      by (cases "processSpreadsheet_analysed js1 jobId uid data an (Some lim)")
    show ?thesis
    proof (cases k2)
      case None
      with r a Some assms show ?thesis by (simp add: processSpreadsheet_def rows_added_same)
    next
      case (Some toInsert)
      from analysed_toInsert [OF a [unfolded Some] assms]
      have "int (length toInsert) \<le> cl_remaining lim" .
      with insert_stretch_adds [of d js2 jobId uid "length data" toInsert ok] r a Some \<open>k = Some data\<close>
      show ?thesis by (simp add: processSpreadsheet_def)
    qed
  qed
qed

lemma post_spreadsheet_within_quota:
  "rows_added d (snd (snd (post_spreadsheet js d (Some uid) rate_limited upl jobId now an ok)))
     \<le> quota_room d uid"
proof (cases "checkContactLimit \<lparr>req_user = Some uid, req_userProfile = db_profiles d uid\<rparr>")
  case (Inl e)
  then show ?thesis
    by (cases e) (simp add: post_spreadsheet_def authenticateToken_def rows_added_same quota_room_nonneg)
next
  case (Inr lim)
  from quota_check_room [OF Inr] have r: "cl_remaining lim = quota_room d uid" "0 < cl_remaining lim" by simp_all
  from worker_adds [OF r(2), of d "create_job js jobId ''Starting file processing...'' now" jobId uid upl now an ok]
    r Inr
  show ?thesis by (simp add: post_spreadsheet_def authenticateToken_def rows_added_same quota_room_nonneg)
qed


section \<open>Properties of concurrent contact creation\<close>

lemma committed_update_gain:
  "i < length xs \<Longrightarrow> xs ! i \<noteq> Committed \<Longrightarrow>
     length (filter (\<lambda>p. p = Committed) (xs[i := Committed])) = Suc (length (filter (\<lambda>p. p = Committed) xs))"
proof (induction xs arbitrary: i)
  case Nil
  then show ?case by simp
next
  case (Cons x xs)
  then show ?case by (cases i) auto
qed

lemma committed_update_same:
  "i < length xs \<Longrightarrow> xs ! i \<noteq> Committed \<Longrightarrow> y \<noteq> Committed \<Longrightarrow>
     length (filter (\<lambda>p. p = Committed) (xs[i := y])) = length (filter (\<lambda>p. p = Committed) xs)"
proof (induction xs arbitrary: i)
  case Nil
  then show ?case by simp
next
  case (Cons x xs)
  then show ?case by (cases i) auto
qed

lemma increment_counter:
  assumes "db_profiles d uid = Some p"
  shows "currentCount_of (db_profiles (increment_contact_count d uid n) uid) = currentCount_of (db_profiles d uid) + n"
    and "userPlan_of (db_profiles (increment_contact_count d uid n) uid) = userPlan_of (db_profiles d uid)"
    and "db_profiles (increment_contact_count d uid n) uid \<noteq> None"
  using assms by (simp_all add: increment_contact_count_def currentCount_of_def userPlan_of_def split: option.splits)

lemma insert_step_effect:
  "db_profiles (fst (insert_step uid c d)) = db_profiles d"
  "snd (insert_step uid c d) \<noteq> Committed"
  by (simp_all add: insert_step_def insert_contacts_def)

lemma insert_step_plain:
  assumes "plain c"
  shows "insert_step uid c d = (d\<lparr>db_contacts := db_contacts d @ [new_contact_row uid (cr_body c)]\<rparr>, Inserted)"
  using assms by (simp add: insert_step_def insert_contacts_def plain_def)

text \<open>
  What one stretch does to the profile of the user and to the number of committed requests:
  only the stretch that calls the stored procedure changes either, and it adds one to both.
\<close>

lemma step_request_effect:
  assumes "db_profiles d uid \<noteq> None"
  shows "db_profiles (fst (step_request matches uid c d p)) uid \<noteq> None"
    and "userPlan_of (db_profiles (fst (step_request matches uid c d p)) uid) = userPlan_of (db_profiles d uid)"
    and "p = Inserted \<Longrightarrow>
           currentCount_of (db_profiles (fst (step_request matches uid c d p)) uid) = currentCount_of (db_profiles d uid) + 1
           \<and> snd (step_request matches uid c d p) = Committed"
    and "p \<noteq> Inserted \<Longrightarrow>
           currentCount_of (db_profiles (fst (step_request matches uid c d p)) uid) = currentCount_of (db_profiles d uid)
           \<and> (snd (step_request matches uid c d p) = Committed \<longleftrightarrow> p = Committed)"
proof -
  from assms obtain pr where pr: "db_profiles d uid = Some pr" by auto
  note inc = increment_counter [OF pr]
  show "db_profiles (fst (step_request matches uid c d p)) uid \<noteq> None"
    using assms inc(3) [of 1]
    by (cases p) (simp_all add: step_request_def authenticateToken_def insert_step_effect split: sum.splits prod.splits)
  show "userPlan_of (db_profiles (fst (step_request matches uid c d p)) uid) = userPlan_of (db_profiles d uid)"
    using inc(2) [of 1]
    by (cases p) (simp_all add: step_request_def authenticateToken_def insert_step_effect split: sum.splits prod.splits)
  show "p = Inserted \<Longrightarrow>
           currentCount_of (db_profiles (fst (step_request matches uid c d p)) uid) = currentCount_of (db_profiles d uid) + 1
           \<and> snd (step_request matches uid c d p) = Committed"
    using inc(1) [of 1] by (simp add: step_request_def)
  show "p \<noteq> Inserted \<Longrightarrow>
           currentCount_of (db_profiles (fst (step_request matches uid c d p)) uid) = currentCount_of (db_profiles d uid)
           \<and> (snd (step_request matches uid c d p) = Committed \<longleftrightarrow> p = Committed)"
    by (cases p) (simp_all add: step_request_def authenticateToken_def insert_step_effect split: sum.splits prod.splits)
qed

lemma step_invariant:
  assumes "db_profiles (w_db w) uid \<noteq> None"
  shows "db_profiles (w_db (step matches uid reqs i w)) uid \<noteq> None"
    and "ceiling_of (step matches uid reqs i w) uid = ceiling_of w uid"
    and "counter (step matches uid reqs i w) uid - int (committed (step matches uid reqs i w))
           = counter w uid - int (committed w)"
    and "length (w_phases (step matches uid reqs i w)) = length (w_phases w)"
proof -
  note e = step_request_effect [OF assms, where matches = matches and c = "reqs ! i" and p = "w_phases w ! i"]
  show "db_profiles (w_db (step matches uid reqs i w)) uid \<noteq> None"
    using assms e(1) by (simp add: step_def)
  show "ceiling_of (step matches uid reqs i w) uid = ceiling_of w uid"
    using e(2) by (simp add: step_def ceiling_of_def)
  show "length (w_phases (step matches uid reqs i w)) = length (w_phases w)"
    by (simp add: step_def)
  show "counter (step matches uid reqs i w) uid - int (committed (step matches uid reqs i w))
           = counter w uid - int (committed w)"
  proof (cases "i < length (w_phases w) \<and> i < length reqs")
    case False
    then have "step matches uid reqs i w = w" by (auto simp: step_def)
    then show ?thesis by simp
  next
    case True
    then have il: "i < length (w_phases w)" by simp
    show ?thesis
    proof (cases "w_phases w ! i = Inserted")
      case ins: True
      then have ne: "w_phases w ! i \<noteq> Committed" by simp
      from e(3) [OF ins] committed_update_gain [OF il ne] True
      show ?thesis by (simp add: step_def counter_def committed_def)
    next
      case nins: False
      show ?thesis
      proof (cases "w_phases w ! i = Committed")
        case c: True
        then have "(w_phases w)[i := Committed] = w_phases w"
          using list_update_id [of "w_phases w" i] by simp
        with c e(4) [OF nins] True show ?thesis
          by (simp add: step_def counter_def committed_def step_request_def)
      next
        case False
        with e(4) [OF nins] have "snd (step_request matches uid (reqs ! i) (w_db w) (w_phases w ! i)) \<noteq> Committed"
          by simp
        from committed_update_same [OF il False this] e(4) [OF nins] True
        show ?thesis by (simp add: step_def counter_def committed_def)
      qed
    qed
  qed
qed

lemma run_schedule_invariant:
  "db_profiles (w_db w) uid \<noteq> None \<Longrightarrow>
     db_profiles (w_db (run_schedule matches uid reqs sched w)) uid \<noteq> None
     \<and> ceiling_of (run_schedule matches uid reqs sched w) uid = ceiling_of w uid
     \<and> counter (run_schedule matches uid reqs sched w) uid - int (committed (run_schedule matches uid reqs sched w))
           = counter w uid - int (committed w)
     \<and> length (w_phases (run_schedule matches uid reqs sched w)) = length (w_phases w)"
proof (induction sched arbitrary: w)
  case Nil
  then show ?case by simp
next
  case (Cons i sched)
  note s = step_invariant [OF Cons.prems, where matches = matches and reqs = reqs and i = i]
  from Cons.IH [OF s(1)] s(2,3,4) show ?case by simp
qed

lemma run_schedule_append:
  "run_schedule matches uid reqs (s1 @ s2) w = run_schedule matches uid reqs s2 (run_schedule matches uid reqs s1 w)"
  by (induction s1 arbitrary: w) simp_all

lemma one_by_one_Suc: "one_by_one a (Suc n) = [a, a, a, a] @ one_by_one (Suc a) n"
  by (simp add: one_by_one_def upt_conv_Cons)

lemma step_at:
  assumes "i < length ps" "i < length reqs"
  shows "step matches uid reqs i \<lparr>w_db = d, w_phases = ps\<rparr>
           = \<lparr>w_db = fst (step_request matches uid (reqs ! i) d (ps ! i)),
              w_phases = ps[i := snd (step_request matches uid (reqs ! i) d (ps ! i))]\<rparr>"
  using assms by (simp add: step_def)

text \<open>
  An authenticated request that the quota check lets through, that is plain and finds no
  duplicate, is committed within three stretches when nothing comes in between.
\<close>

lemma serve_authenticated:
  assumes i: "i < length ps" "i < length reqs"
    and auth: "ps ! i = Authenticated req" and lim: "checkContactLimit req = Inr lim"
    and pl: "plain (reqs ! i)"
    and nodup: "duplicate_rows matches uid (cr_body (reqs ! i)) (db_contacts d) = []"
  shows "run_schedule matches uid reqs [i, i, i] \<lparr>w_db = d, w_phases = ps\<rparr>
           = \<lparr>w_db = increment_contact_count
                        (d\<lparr>db_contacts := db_contacts d @ [new_contact_row uid (cr_body (reqs ! i))]\<rparr>) uid 1,
              w_phases = ps[i := Committed]\<rparr>"
proof -
  let ?c = "reqs ! i"
  let ?d1 = "d\<lparr>db_contacts := db_contacts d @ [new_contact_row uid (cr_body ?c)]\<rparr>"
  from pl have v: "\<not> cr_rate_limited ?c" "validateContact (cr_body ?c) = []" by (simp_all add: plain_def)
  have ins: "step_request matches uid ?c d Inserted = (increment_contact_count d uid 1, Committed)" for d
    by (simp add: step_request_def)
  have com: "step_request matches uid ?c d Committed = (d, Committed)" for d
    by (simp add: step_request_def)
  show ?thesis
  proof (cases "truthy (in_email (cr_body ?c)) \<or> truthy (in_phone (cr_body ?c))")
    case True
    have s1: "step_request matches uid ?c d (Authenticated req) = (d, Queried [])"
      using True v lim nodup by (simp add: step_request_def)
    have s2: "step_request matches uid ?c d (Queried []) = (?d1, Inserted)"
      by (simp add: step_request_def insert_step_plain [OF pl])
    show ?thesis
      using i by (simp add: step_at auth s1 s2 ins)
  next
    case False
    have s1: "step_request matches uid ?c d (Authenticated req) = (?d1, Inserted)"
      using False v lim by (simp add: step_request_def insert_step_plain [OF pl])
    show ?thesis
      using i by (simp add: step_at auth s1 ins com)
  qed
qed

text \<open>An authenticated request that the quota check refuses stays refused.\<close>

lemma refuse_authenticated:
  assumes i: "i < length ps" "i < length reqs"
    and auth: "ps ! i = Authenticated req" and lim: "checkContactLimit req = Inl (st, code)"
    and pl: "plain (reqs ! i)"
  shows "run_schedule matches uid reqs [i, i, i] \<lparr>w_db = d, w_phases = ps\<rparr>
           = \<lparr>w_db = d, w_phases = ps[i := Rejected st code]\<rparr>"
proof -
  let ?c = "reqs ! i"
  from pl have v: "\<not> cr_rate_limited ?c" by (simp add: plain_def)
  have s1: "step_request matches uid ?c d (Authenticated req) = (d, Rejected st code)"
    using v lim by (simp add: step_request_def)
  have s2: "step_request matches uid ?c d (Rejected st code) = (d, Rejected st code)"
    by (simp add: step_request_def)
  show ?thesis using i by (simp add: step_at auth s1 s2)
qed

text \<open>A request served to its end, with nothing in between.\<close>

lemma serve_one:
  assumes i: "i < length (w_phases w)" "i < length reqs" and arrived: "w_phases w ! i = Arrived"
    and pl: "plain (reqs ! i)"
    and nodup: "duplicate_rows matches uid (cr_body (reqs ! i)) (db_contacts (w_db w)) = []"
  shows "run_schedule matches uid reqs [i, i, i, i] w
           = (if counter w uid < ceiling_of w uid
              then \<lparr>w_db = increment_contact_count
                             ((w_db w)\<lparr>db_contacts := db_contacts (w_db w) @ [new_contact_row uid (cr_body (reqs ! i))]\<rparr>) uid 1,
                    w_phases = (w_phases w)[i := Committed]\<rparr>
              else \<lparr>w_db = w_db w, w_phases = (w_phases w)[i := Rejected 403 ''CONTACT_LIMIT_REACHED'']\<rparr>)"
proof -
  let ?req = "\<lparr>req_user = Some uid, req_userProfile = db_profiles (w_db w) uid\<rparr>"
  let ?ps = "(w_phases w)[i := Authenticated ?req]"
  have w: "w = \<lparr>w_db = w_db w, w_phases = w_phases w\<rparr>" by simp
  have s1: "step matches uid reqs i w = \<lparr>w_db = w_db w, w_phases = ?ps\<rparr>"
    using i arrived by (simp add: step_def step_request_def authenticateToken_def)
  have i': "i < length ?ps" using i by simp
  have at: "?ps ! i = Authenticated ?req" using i by simp
  have hd: "run_schedule matches uid reqs [i, i, i, i] w
              = run_schedule matches uid reqs [i, i, i] \<lparr>w_db = w_db w, w_phases = ?ps\<rparr>"
    by (simp add: s1)
  show ?thesis
  proof (cases "counter w uid < ceiling_of w uid")
    case True
    then obtain lim where lim: "checkContactLimit ?req = Inr lim"
      by (simp add: checkContactLimit_def counter_def ceiling_of_def Let_def)
    from serve_authenticated [OF i' i(2) at lim pl nodup] True show ?thesis
      by (simp only: hd) simp
  next
    case False
    then have g: "checkContactLimit ?req = Inl (403, ''CONTACT_LIMIT_REACHED'')"
      by (simp add: checkContactLimit_def counter_def ceiling_of_def Let_def)
    from refuse_authenticated [OF i' i(2) at g pl] False show ?thesis
      by (simp only: hd) simp
  qed
qed


lemma duplicate_rows_empty:
  "duplicate_rows matches uid body rows = []
     \<longleftrightarrow> (\<forall>row \<in> set rows. \<not> (c_user_id row = uid \<and> matches (in_email body) (in_phone body) row))"
  by (simp add: duplicate_rows_def filter_empty_conv)

lemma duplicate_free_subset:
  "set rows' \<subseteq> set rows \<Longrightarrow> duplicate_free matches uid rows cs \<Longrightarrow> duplicate_free matches uid rows' cs"
proof (induction cs arbitrary: rows rows')
  case Nil
  then show ?case by simp
next
  case (Cons c cs)
  from Cons.prems have a: "duplicate_rows matches uid (cr_body c) rows' = []"
    by (auto simp: duplicate_rows_empty)
  have "set (rows' @ [new_contact_row uid (cr_body c)]) \<subseteq> set (rows @ [new_contact_row uid (cr_body c)])"
    using Cons.prems(1) by auto
  from Cons.IH [OF this] Cons.prems(2) a show ?case by simp
qed

lemma take_drop_Suc:
  assumes "a < length xs"
  shows "take (Suc n) (drop a xs) = xs ! a # take n (drop (Suc a) xs)"
  using assms by (simp add: Cons_nth_drop_Suc [symmetric])

lemma one_by_one_counter:
  "db_profiles (w_db w) uid \<noteq> None \<Longrightarrow> a + n \<le> length (w_phases w) \<Longrightarrow> a + n \<le> length reqs \<Longrightarrow>
   (\<forall>j. a \<le> j \<and> j < a + n \<longrightarrow> w_phases w ! j = Arrived) \<Longrightarrow>
   (\<forall>j. a \<le> j \<and> j < a + n \<longrightarrow> plain (reqs ! j)) \<Longrightarrow>
   duplicate_free matches uid (db_contacts (w_db w)) (take n (drop a reqs)) \<Longrightarrow>
     counter (run_schedule matches uid reqs (one_by_one a n) w) uid
       = counter w uid + int (min n (nat (ceiling_of w uid - counter w uid)))"
proof (induction n arbitrary: a w)
  case 0
  then show ?case by (simp add: one_by_one_def)
next
  case (Suc n)
  define w1 where "w1 = run_schedule matches uid reqs [a, a, a, a] w"
  let ?row = "new_contact_row uid (cr_body (reqs ! a))"
  have a_lt: "a < length (w_phases w)" "a < length reqs" using Suc.prems(2,3) by simp_all
  have a_arr: "w_phases w ! a = Arrived" using Suc.prems(4) by simp
  have a_pl: "plain (reqs ! a)" using Suc.prems(5) by simp
  from Suc.prems(6) have df: "duplicate_rows matches uid (cr_body (reqs ! a)) (db_contacts (w_db w)) = []"
    "duplicate_free matches uid (db_contacts (w_db w) @ [?row]) (take n (drop (Suc a) reqs))"
    by (simp_all add: take_drop_Suc [OF a_lt(2)])
  have one: "w1 = (if counter w uid < ceiling_of w uid
              then \<lparr>w_db = increment_contact_count ((w_db w)\<lparr>db_contacts := db_contacts (w_db w) @ [?row]\<rparr>) uid 1,
                    w_phases = (w_phases w)[a := Committed]\<rparr>
              else \<lparr>w_db = w_db w, w_phases = (w_phases w)[a := Rejected 403 ''CONTACT_LIMIT_REACHED'']\<rparr>)"
    unfolding w1_def by (rule serve_one [OF a_lt a_arr a_pl df(1)])
  have inv: "db_profiles (w_db w1) uid \<noteq> None \<and> ceiling_of w1 uid = ceiling_of w uid
     \<and> counter w1 uid - int (committed w1) = counter w uid - int (committed w)
     \<and> length (w_phases w1) = length (w_phases w)"
    unfolding w1_def by (rule run_schedule_invariant [OF Suc.prems(1)])
  have prof1: "db_profiles (w_db w1) uid \<noteq> None" using inv by simp
  have len1: "Suc a + n \<le> length (w_phases w1)" using inv Suc.prems(2) by simp
  have len2: "Suc a + n \<le> length reqs" using Suc.prems(3) by simp
  have rest: "\<forall>j. Suc a \<le> j \<and> j < Suc a + n \<longrightarrow> w_phases w1 ! j = Arrived"
  proof (intro allI impI)
    fix j assume j: "Suc a \<le> j \<and> j < Suc a + n"
    then have "w_phases w ! j = Arrived" using Suc.prems(4) by simp
    moreover from j have "j \<noteq> a" by simp
    ultimately show "w_phases w1 ! j = Arrived" by (simp add: one)
  qed
  have pl1: "\<forall>j. Suc a \<le> j \<and> j < Suc a + n \<longrightarrow> plain (reqs ! j)" using Suc.prems(5) by simp
  have rows1: "set (db_contacts (w_db w1)) \<subseteq> set (db_contacts (w_db w) @ [?row])"
    by (auto simp: one increment_keeps_contacts)
  have df1: "duplicate_free matches uid (db_contacts (w_db w1)) (take n (drop (Suc a) reqs))"
    by (rule duplicate_free_subset [OF rows1 df(2)])
  have ceil1: "ceiling_of w1 uid = ceiling_of w uid" using inv by simp
  from Suc.IH [OF prof1 len1 len2 rest pl1 df1]
  have ih: "counter (run_schedule matches uid reqs (one_by_one (Suc a) n) w1) uid
              = counter w1 uid + int (min n (nat (ceiling_of w uid - counter w1 uid)))"
    by (simp only: ceil1)
  have split: "run_schedule matches uid reqs (one_by_one a (Suc n)) w
                 = run_schedule matches uid reqs (one_by_one (Suc a) n) w1"
    unfolding w1_def by (simp only: one_by_one_Suc run_schedule_append)
  obtain pr where pr: "db_profiles (w_db w) uid = Some pr" using Suc.prems(1) by auto
  show ?case
  proof (cases "counter w uid < ceiling_of w uid")
    case True
    have c1: "counter w1 uid = counter w uid + 1"
      using True increment_counter(1) [of "(w_db w)\<lparr>db_contacts := db_contacts (w_db w) @ [?row]\<rparr>" uid pr 1] pr
      by (simp add: one counter_def)
    have m: "min n (nat (ceiling_of w uid - (counter w uid + 1))) + 1
            = min (Suc n) (nat (ceiling_of w uid - counter w uid))"
      using True by (simp add: min_def) linarith
    have "int (min n (nat (ceiling_of w uid - (counter w uid + 1)))) + 1
            = int (min n (nat (ceiling_of w uid - (counter w uid + 1))) + 1)"
      by simp
    also have "\<dots> = int (min (Suc n) (nat (ceiling_of w uid - counter w uid)))"
      by (simp only: m)
    finally have "int (min n (nat (ceiling_of w uid - (counter w uid + 1)))) + 1
            = int (min (Suc n) (nat (ceiling_of w uid - counter w uid)))" .
    with ih c1 show ?thesis unfolding split by simp
  next
    case False
    have c1: "counter w1 uid = counter w uid" using False by (simp add: one counter_def)
    from False have "nat (ceiling_of w uid - counter w uid) = 0" by simp
    with ih c1 show ?thesis unfolding split by simp
  qed
qed

text \<open>The first part of the schedule \<open>reads_first\<close>: every request reads the same profile.\<close>

lemma authenticate_all:
  "a + k \<le> length reqs \<Longrightarrow>
   run_schedule matches uid reqs [a ..< a + k]
       \<lparr>w_db = d, w_phases = replicate a (Authenticated \<lparr>req_user = Some uid, req_userProfile = db_profiles d uid\<rparr>)
                                @ replicate k Arrived\<rparr>
     = \<lparr>w_db = d, w_phases = replicate (a + k) (Authenticated \<lparr>req_user = Some uid, req_userProfile = db_profiles d uid\<rparr>)\<rparr>"
proof (induction k arbitrary: a)
  case 0
  then show ?case by simp
next
  case (Suc k)
  let ?A = "Authenticated \<lparr>req_user = Some uid, req_userProfile = db_profiles d uid\<rparr>"
  let ?ps = "replicate a ?A @ replicate (Suc k) Arrived"
  have i: "a < length ?ps" "a < length reqs" using Suc.prems by simp_all
  have at: "?ps ! a = Arrived" by (simp add: nth_append)
  have up: "?ps[a := ?A] = replicate (Suc a) ?A @ replicate k Arrived"
    by (simp add: list_update_append replicate_append_same)
  have s: "step matches uid reqs a \<lparr>w_db = d, w_phases = ?ps\<rparr>
             = \<lparr>w_db = d, w_phases = replicate (Suc a) ?A @ replicate k Arrived\<rparr>"
    using i by (simp only: step_at at up [symmetric]) (simp add: step_request_def authenticateToken_def)
  have "[a ..< a + Suc k] = a # [Suc a ..< Suc a + k]" by (simp add: upt_conv_Cons)
  then have "run_schedule matches uid reqs [a ..< a + Suc k] \<lparr>w_db = d, w_phases = ?ps\<rparr>
               = run_schedule matches uid reqs [Suc a ..< Suc a + k]
                   \<lparr>w_db = d, w_phases = replicate (Suc a) ?A @ replicate k Arrived\<rparr>"
    by (simp only: run_schedule.simps s)
  also have "\<dots> = \<lparr>w_db = d, w_phases = replicate (Suc a + k) ?A\<rparr>"
    using Suc.IH [of "Suc a"] Suc.prems by simp
  finally show ?case by simp
qed

lemma in_turn_Suc: "in_turn a (Suc n) = [a, a, a] @ in_turn (Suc a) n"
  by (simp add: in_turn_def upt_conv_Cons)

text \<open>
  The second part: requests that have all been let through on the profile they read are all
  committed, whatever the counter has become in the meantime.
\<close>

lemma serve_all_authenticated:
  "a + k \<le> length ps \<Longrightarrow> a + k \<le> length reqs \<Longrightarrow>
   (\<forall>j. a \<le> j \<and> j < a + k \<longrightarrow> ps ! j = Authenticated req) \<Longrightarrow>
   checkContactLimit req = Inr lim \<Longrightarrow>
   (\<forall>j. a \<le> j \<and> j < a + k \<longrightarrow> plain (reqs ! j)) \<Longrightarrow>
   duplicate_free matches uid (db_contacts d) (take k (drop a reqs)) \<Longrightarrow>
     committed (run_schedule matches uid reqs (in_turn a k) \<lparr>w_db = d, w_phases = ps\<rparr>)
       = committed \<lparr>w_db = d, w_phases = ps\<rparr> + k"
proof (induction k arbitrary: a d ps)
  case 0
  then show ?case by (simp add: in_turn_def)
next
  case (Suc k)
  let ?row = "new_contact_row uid (cr_body (reqs ! a))"
  let ?d1 = "increment_contact_count (d\<lparr>db_contacts := db_contacts d @ [?row]\<rparr>) uid 1"
  let ?ps1 = "ps[a := Committed]"
  have a_lt: "a < length ps" "a < length reqs" using Suc.prems(1,2) by simp_all
  have a_at: "ps ! a = Authenticated req" using Suc.prems(3) by simp
  have a_pl: "plain (reqs ! a)" using Suc.prems(5) by simp
  from Suc.prems(6) have df: "duplicate_rows matches uid (cr_body (reqs ! a)) (db_contacts d) = []"
    "duplicate_free matches uid (db_contacts d @ [?row]) (take k (drop (Suc a) reqs))"
    by (simp_all add: take_drop_Suc [OF a_lt(2)])
  have one: "run_schedule matches uid reqs [a, a, a] \<lparr>w_db = d, w_phases = ps\<rparr> = \<lparr>w_db = ?d1, w_phases = ?ps1\<rparr>"
    by (rule serve_authenticated [OF a_lt a_at Suc.prems(4) a_pl df(1)])
  have len1: "Suc a + k \<le> length ?ps1" using Suc.prems(1) by simp
  have len2: "Suc a + k \<le> length reqs" using Suc.prems(2) by simp
  have rest: "\<forall>j. Suc a \<le> j \<and> j < Suc a + k \<longrightarrow> ?ps1 ! j = Authenticated req"
    using Suc.prems(3) by simp
  have pl1: "\<forall>j. Suc a \<le> j \<and> j < Suc a + k \<longrightarrow> plain (reqs ! j)" using Suc.prems(5) by simp
  have df1: "duplicate_free matches uid (db_contacts ?d1) (take k (drop (Suc a) reqs))"
    using df(2) by (simp add: increment_keeps_contacts)
  note ih = Suc.IH [OF len1 len2 rest Suc.prems(4) pl1 df1]
  have ne: "ps ! a \<noteq> Committed" using a_at by simp
  have gain: "committed \<lparr>w_db = ?d1, w_phases = ?ps1\<rparr> = Suc (committed \<lparr>w_db = d, w_phases = ps\<rparr>)"
    using committed_update_gain [OF a_lt(1) ne] by (simp add: committed_def)
  have split: "run_schedule matches uid reqs (in_turn a (Suc k)) \<lparr>w_db = d, w_phases = ps\<rparr>
                 = run_schedule matches uid reqs (in_turn (Suc a) k) \<lparr>w_db = ?d1, w_phases = ?ps1\<rparr>"
    by (simp only: in_turn_Suc run_schedule_append one)
  show ?case unfolding split ih gain by simp
qed

lemma nothing_committed_at_start: "committed (arrivals d reqs) = 0"
  by (simp add: committed_def arrivals_def)


text \<open>A request served alone, from its arrival to its end, is the route as it reads.\<close>

lemma served_alone_is_route:
  "run_schedule matches uid [c] [0, 0, 0, 0] (arrivals d [c])
     = \<lparr>w_db = snd (post_contacts d (Some uid) (cr_rate_limited c) (cr_body c)
                       (duplicate_rows matches uid (cr_body c) (db_contacts d) \<noteq> []) (cr_insert_ok c)),
        w_phases = [case fst (post_contacts d (Some uid) (cr_rate_limited c) (cr_body c)
                               (duplicate_rows matches uid (cr_body c) (db_contacts d) \<noteq> []) (cr_insert_ok c)) of
                      Success st x \<Rightarrow> Committed
                    | Failure st code \<Rightarrow> Rejected st code]\<rparr>"
proof -
  let ?req = "\<lparr>req_user = Some uid, req_userProfile = db_profiles d uid\<rparr>"
  let ?found = "duplicate_rows matches uid (cr_body c) (db_contacts d)"
  let ?row = "new_contact_row uid (cr_body c)"
  let ?d1 = "d\<lparr>db_contacts := db_contacts d @ [?row]\<rparr>"
  have auth: "authenticateToken d (Some uid) = Inr ?req" by (simp add: authenticateToken_def)
  have st: "step matches uid [c] 0 \<lparr>w_db = d', w_phases = [p]\<rparr>
              = \<lparr>w_db = fst (step_request matches uid c d' p), w_phases = [snd (step_request matches uid c d' p)]\<rparr>"
    for d' p
    by (simp add: step_def)
  have s0: "step_request matches uid c d Arrived = (d, Authenticated ?req)"
    by (simp add: step_request_def auth)
  have rj: "step_request matches uid c d' (Rejected s m) = (d', Rejected s m)" for d' s m
    by (simp add: step_request_def)
  have cm: "step_request matches uid c d' Committed = (d', Committed)" for d'
    by (simp add: step_request_def)
  have ins: "step_request matches uid c d' Inserted = (increment_contact_count d' uid 1, Committed)" for d'
    by (simp add: step_request_def)
  define W where "W = run_schedule matches uid [c] [0, 0, 0] \<lparr>w_db = d, w_phases = [Authenticated ?req]\<rparr>"
  have run: "run_schedule matches uid [c] [0, 0, 0, 0] (arrivals d [c]) = W"
    by (simp add: W_def arrivals_def st s0)
  have refused: "W = \<lparr>w_db = d, w_phases = [Rejected s m]\<rparr>"
    if "step_request matches uid c d (Authenticated ?req) = (d, Rejected s m)" for s m
    using that by (simp add: W_def st rj)
  show ?thesis
  proof (cases "cr_rate_limited c")
    case True
    then have "step_request matches uid c d (Authenticated ?req) = (d, Rejected 429 ''RATE_LIMIT_EXCEEDED'')"
      by (simp add: step_request_def)
    from True show ?thesis
      unfolding run refused [OF \<open>step_request matches uid c d (Authenticated ?req) = (d, Rejected 429 ''RATE_LIMIT_EXCEEDED'')\<close>]
      by (simp add: post_contacts_def auth)
  next
    case nrl: False
    show ?thesis
    proof (cases "checkContactLimit ?req")
      case (Inl e)
      obtain s m where e: "e = (s, m)" by (cases e)
      from Inl e nrl have r: "step_request matches uid c d (Authenticated ?req) = (d, Rejected s m)"
        by (simp add: step_request_def)
      from Inl e nrl show ?thesis
        unfolding run refused [OF r] by (simp add: post_contacts_def auth)
    next
      case (Inr lim)
      have route: "post_contacts d (Some uid) (cr_rate_limited c) (cr_body c) (?found \<noteq> []) (cr_insert_ok c)
                     = create_contact d uid (cr_body c) (?found \<noteq> []) (cr_insert_ok c)"
        using nrl Inr by (simp add: post_contacts_def auth)
      show ?thesis
      proof (cases "validateContact (cr_body c) = []")
        case False
        with Inr nrl have r: "step_request matches uid c d (Authenticated ?req) = (d, Rejected 400 ''VALIDATION_ERROR'')"
          by (simp add: step_request_def)
        from False show ?thesis
          unfolding run refused [OF r] route by (simp add: create_contact_def)
      next
        case valid: True
        have insert: "insert_step uid c d
                        = (if cr_insert_ok c then (?d1, Inserted) else (d, Rejected 500 ''INTERNAL_ERROR''))"
          by (simp add: insert_step_def insert_contacts_def)
        show ?thesis
        proof (cases "truthy (in_email (cr_body c)) \<or> truthy (in_phone (cr_body c))")
          case query: True
          have s1: "step_request matches uid c d (Authenticated ?req) = (d, Queried ?found)"
            using Inr nrl valid query by (simp add: step_request_def)
          show ?thesis
          proof (cases "?found = []")
            case False
            then have s2: "step_request matches uid c d (Queried ?found) = (d, Rejected 409 ''DUPLICATE_CONTACT'')"
              by (simp add: step_request_def)
            have W: "W = \<lparr>w_db = d, w_phases = [Rejected 409 ''DUPLICATE_CONTACT'']\<rparr>"
              by (simp add: W_def st s1 s2 rj)
            from False valid query show ?thesis
              unfolding run W route by (simp add: create_contact_def)
          next
            case none: True
            have s2: "step_request matches uid c d (Queried ?found) = insert_step uid c d"
              using none by (simp add: step_request_def)
            show ?thesis
            proof (cases "cr_insert_ok c")
              case True
              have W: "W = \<lparr>w_db = increment_contact_count ?d1 uid 1, w_phases = [Committed]\<rparr>"
                using True by (simp add: W_def st s1 s2 insert ins)
              from True none valid query show ?thesis
                unfolding run W route by (simp add: create_contact_def insert_contacts_def)
            next
              case False
              have W: "W = \<lparr>w_db = d, w_phases = [Rejected 500 ''INTERNAL_ERROR'']\<rparr>"
                using False by (simp add: W_def st s1 s2 insert rj)
              from False none valid query show ?thesis
                unfolding run W route by (simp add: create_contact_def insert_contacts_def)
            qed
          qed
        next
          case direct: False
          have s1: "step_request matches uid c d (Authenticated ?req) = insert_step uid c d"
            using Inr nrl valid direct by (simp add: step_request_def)
          show ?thesis
          proof (cases "cr_insert_ok c")
            case True
            have W: "W = \<lparr>w_db = increment_contact_count ?d1 uid 1, w_phases = [Committed]\<rparr>"
              using True by (simp add: W_def st s1 insert ins cm)
            from True valid direct show ?thesis
              unfolding run W route by (simp add: create_contact_def insert_contacts_def)
          next
            case False
            have W: "W = \<lparr>w_db = d, w_phases = [Rejected 500 ''INTERNAL_ERROR'']\<rparr>"
              using False by (simp add: W_def st s1 insert rj)
            from False valid direct show ?thesis
              unfolding run W route by (simp add: create_contact_def insert_contacts_def)
          qed
        qed
      qed
    qed
  qed
qed

text \<open>
  C3, as the code has it. Every committed creation calls the stored procedure once and the
  handler never writes the counter itself, so under every interleaving the counter ends at its
  initial value plus the number of committed creations: no increment is lost. The quota
  check, however, decides on the counter as it was read when the request was authenticated,
  and nothing ties it to the commit. For plain requests that duplicate neither a stored
  contact nor one another: served one after another, exactly \<open>min n (max - c)\<close> of the \<open>n\<close>
  requests are committed and the counter does not pass the ceiling; but when all of them are
  authenticated before any goes on and the tenant is below the ceiling, all \<open>n\<close> are
  committed and the counter ends at \<open>c + n\<close>, however large \<open>n\<close> is.
\<close>

theorem concurrent_creation_counter:
  assumes prof: "db_profiles d uid \<noteq> None"
  shows "counter (run_schedule matches uid reqs sched (arrivals d reqs)) uid
           = currentCount_of (db_profiles d uid)
             + int (committed (run_schedule matches uid reqs sched (arrivals d reqs)))
       \<and> (list_all plain reqs \<and> duplicate_free matches uid (db_contacts d) reqs \<longrightarrow>
            committed (run_schedule matches uid reqs (one_by_one 0 (length reqs)) (arrivals d reqs))
              = min (length reqs)
                  (nat (maxContacts_of (userPlan_of (db_profiles d uid)) - currentCount_of (db_profiles d uid)))
          \<and> (currentCount_of (db_profiles d uid) \<le> maxContacts_of (userPlan_of (db_profiles d uid)) \<longrightarrow>
                counter (run_schedule matches uid reqs (one_by_one 0 (length reqs)) (arrivals d reqs)) uid
                  \<le> maxContacts_of (userPlan_of (db_profiles d uid)))
          \<and> (currentCount_of (db_profiles d uid) < maxContacts_of (userPlan_of (db_profiles d uid)) \<longrightarrow>
                committed (run_schedule matches uid reqs (reads_first (length reqs)) (arrivals d reqs))
                  = length reqs
              \<and> counter (run_schedule matches uid reqs (reads_first (length reqs)) (arrivals d reqs)) uid
                  = currentCount_of (db_profiles d uid) + int (length reqs)))"
proof -
  let ?w0 = "arrivals d reqs"
  let ?n = "length reqs"
  let ?c = "currentCount_of (db_profiles d uid)"
  let ?mx = "maxContacts_of (userPlan_of (db_profiles d uid))"
  have p0: "db_profiles (w_db ?w0) uid \<noteq> None" using prof by (simp add: arrivals_def)
  have c0: "counter ?w0 uid = ?c" by (simp add: counter_def arrivals_def)
  have m0: "ceiling_of ?w0 uid = ?mx" by (simp add: ceiling_of_def arrivals_def)
  have any: "counter (run_schedule matches uid reqs s ?w0) uid
               = ?c + int (committed (run_schedule matches uid reqs s ?w0))" for s
    using run_schedule_invariant [OF p0, of matches reqs s] c0 nothing_committed_at_start [of d reqs] by simp
  have rest: "committed (run_schedule matches uid reqs (one_by_one 0 ?n) ?w0) = min ?n (nat (?mx - ?c))
          \<and> (?c \<le> ?mx \<longrightarrow> counter (run_schedule matches uid reqs (one_by_one 0 ?n) ?w0) uid \<le> ?mx)
          \<and> (?c < ?mx \<longrightarrow>
                committed (run_schedule matches uid reqs (reads_first ?n) ?w0) = ?n
              \<and> counter (run_schedule matches uid reqs (reads_first ?n) ?w0) uid = ?c + int ?n)"
    if h: "list_all plain reqs \<and> duplicate_free matches uid (db_contacts d) reqs"
  proof -
    from h have pl: "\<forall>j. 0 \<le> j \<and> j < 0 + ?n \<longrightarrow> plain (reqs ! j)"
      by (simp add: list_all_length)
    from h have df: "duplicate_free matches uid (db_contacts (w_db ?w0)) (take ?n (drop 0 reqs))"
      by (simp add: arrivals_def)
    have arr: "\<forall>j. 0 \<le> j \<and> j < 0 + ?n \<longrightarrow> w_phases ?w0 ! j = Arrived" by (simp add: arrivals_def)
    have len: "0 + ?n \<le> length (w_phases ?w0)" "0 + ?n \<le> length reqs" by (simp_all add: arrivals_def)
    from one_by_one_counter [OF p0 len arr pl df]
    have seq: "counter (run_schedule matches uid reqs (one_by_one 0 ?n) ?w0) uid = ?c + int (min ?n (nat (?mx - ?c)))"
      by (simp only: c0 m0)
    have k: "committed (run_schedule matches uid reqs (one_by_one 0 ?n) ?w0) = min ?n (nat (?mx - ?c))"
      using seq any [of "one_by_one 0 ?n"] by simp
    have le: "?c \<le> ?mx \<longrightarrow> counter (run_schedule matches uid reqs (one_by_one 0 ?n) ?w0) uid \<le> ?mx"
      unfolding seq by (simp add: min_def) linarith
    have race: "committed (run_schedule matches uid reqs (reads_first ?n) ?w0) = ?n
              \<and> counter (run_schedule matches uid reqs (reads_first ?n) ?w0) uid = ?c + int ?n"
      if below: "?c < ?mx"
    proof -
      let ?req = "\<lparr>req_user = Some uid, req_userProfile = db_profiles d uid\<rparr>"
      let ?ps = "replicate ?n (Authenticated ?req)"
      from below obtain lim where lim: "checkContactLimit ?req = Inr lim"
        by (simp add: checkContactLimit_def Let_def)
      have a: "run_schedule matches uid reqs [0 ..< 0 + ?n] ?w0 = \<lparr>w_db = d, w_phases = ?ps\<rparr>"
        using authenticate_all [of 0 ?n reqs matches uid d] by (simp add: arrivals_def)
      have b: "committed (run_schedule matches uid reqs (in_turn 0 ?n) \<lparr>w_db = d, w_phases = ?ps\<rparr>)
                 = committed \<lparr>w_db = d, w_phases = ?ps\<rparr> + ?n"
        by (rule serve_all_authenticated [where req = ?req and lim = lim])
           (use pl h lim in simp_all)
      have z: "committed \<lparr>w_db = d, w_phases = ?ps\<rparr> = 0" by (simp add: committed_def)
      have "run_schedule matches uid reqs (reads_first ?n) ?w0
              = run_schedule matches uid reqs (in_turn 0 ?n) \<lparr>w_db = d, w_phases = ?ps\<rparr>"
        using a by (simp add: reads_first_def run_schedule_append)
      then have cm: "committed (run_schedule matches uid reqs (reads_first ?n) ?w0) = ?n"
        using b z by simp
      with any [of "reads_first ?n"] show ?thesis by simp
    qed
    from k le race show ?thesis by blast
  qed
  from any [of sched] rest show ?thesis by blast
qed

theorem concurrent_creation_counter_witness:
  "db_profiles nearly_full_db ''u2'' \<noteq> None
   \<and> (list_all plain two_creations \<and> duplicate_free email_filter ''u2'' (db_contacts nearly_full_db) two_creations)
   \<and> currentCount_of (db_profiles nearly_full_db ''u2'') \<le> maxContacts_of (userPlan_of (db_profiles nearly_full_db ''u2''))
   \<and> currentCount_of (db_profiles nearly_full_db ''u2'') < maxContacts_of (userPlan_of (db_profiles nearly_full_db ''u2''))
   \<and> counter (run_schedule email_filter ''u2'' two_creations [0, 1, 0, 1, 0, 1, 0, 1]
                (arrivals nearly_full_db two_creations)) ''u2''
       = currentCount_of (db_profiles nearly_full_db ''u2'')
         + int (committed (run_schedule email_filter ''u2'' two_creations [0, 1, 0, 1, 0, 1, 0, 1]
                            (arrivals nearly_full_db two_creations)))
   \<and> committed (run_schedule email_filter ''u2'' two_creations (one_by_one 0 (length two_creations))
                  (arrivals nearly_full_db two_creations))
       = min (length two_creations)
           (nat (maxContacts_of (userPlan_of (db_profiles nearly_full_db ''u2''))
                   - currentCount_of (db_profiles nearly_full_db ''u2'')))
   \<and> counter (run_schedule email_filter ''u2'' two_creations (one_by_one 0 (length two_creations))
                (arrivals nearly_full_db two_creations)) ''u2''
       \<le> maxContacts_of (userPlan_of (db_profiles nearly_full_db ''u2''))
   \<and> committed (run_schedule email_filter ''u2'' two_creations (reads_first (length two_creations))
                  (arrivals nearly_full_db two_creations))
       = length two_creations
   \<and> counter (run_schedule email_filter ''u2'' two_creations (reads_first (length two_creations))
                (arrivals nearly_full_db two_creations)) ''u2''
       = currentCount_of (db_profiles nearly_full_db ''u2'') + int (length two_creations)"
proof -
  have h: "db_profiles nearly_full_db ''u2'' \<noteq> None" by (simp add: nearly_full_db_def)
  have pd: "list_all plain two_creations \<and> duplicate_free email_filter ''u2'' (db_contacts nearly_full_db) two_creations"
    by code_simp
  have le: "currentCount_of (db_profiles nearly_full_db ''u2'')
              \<le> maxContacts_of (userPlan_of (db_profiles nearly_full_db ''u2''))"
    by (simp add: nearly_full_db_def currentCount_of_def userPlan_of_def maxContacts_of_def planLimits_def)
  have lt: "currentCount_of (db_profiles nearly_full_db ''u2'')
              < maxContacts_of (userPlan_of (db_profiles nearly_full_db ''u2''))"
    by (simp add: nearly_full_db_def currentCount_of_def userPlan_of_def maxContacts_of_def planLimits_def)
  note t = concurrent_creation_counter [OF h, where matches = email_filter and reqs = two_creations
             and sched = "[0, 1, 0, 1, 0, 1, 0, 1]"]
  note r = t [THEN conjunct2, THEN mp, OF pd]
  note r3 = r [THEN conjunct2, THEN conjunct2, THEN mp, OF lt]
  show ?thesis
    by (rule conjI [OF h conjI [OF pd conjI [OF le conjI [OF lt conjI [OF t [THEN conjunct1]
          conjI [OF r [THEN conjunct1] conjI [OF r [THEN conjunct2, THEN conjunct1, THEN mp, OF le]
          conjI [OF r3 [THEN conjunct1] r3 [THEN conjunct2]]]]]]]]])
qed

text \<open>
  The race: a tenant on the free plan holds 49 of 50 contacts, and two creations with
  different e-mail addresses are in flight, their stretches alternating. Both are
  authenticated, and so both read 49, before either commits; both pass the quota check, are
  inserted and committed, and the counter ends at 51, above the ceiling of 50, where
  \<open>min 2 (50 - 49) = 1\<close> creation should have succeeded.
\<close>

theorem interleaved_creations_pass_ceiling:
  "counter (run_schedule email_filter ''u2'' two_creations [0, 1, 0, 1, 0, 1, 0, 1]
              (arrivals nearly_full_db two_creations)) ''u2'' = 51
   \<and> ceiling_of (run_schedule email_filter ''u2'' two_creations [0, 1, 0, 1, 0, 1, 0, 1]
              (arrivals nearly_full_db two_creations)) ''u2'' = 50
   \<and> w_phases (run_schedule email_filter ''u2'' two_creations [0, 1, 0, 1, 0, 1, 0, 1]
              (arrivals nearly_full_db two_creations)) = [Committed, Committed]
   \<and> map c_email (db_contacts (w_db (run_schedule email_filter ''u2'' two_creations [0, 1, 0, 1, 0, 1, 0, 1]
              (arrivals nearly_full_db two_creations))))
       = [Some ''farah@example.com'', Some ''gopal@example.com'']
   \<and> min (2::nat) (nat (50 - 49)) = 1"
  by code_simp

text \<open>
  Served one after another, the second of two requests with the same e-mail address is
  refused as a duplicate, and the second of the two different requests above is refused by the
  quota.
\<close>

lemma second_of_two_refused:
  "w_phases (run_schedule email_filter ''u2'' [hd two_creations, hd two_creations] (one_by_one 0 2)
              (arrivals fresh_db [hd two_creations, hd two_creations]))
     = [Committed, Rejected 409 ''DUPLICATE_CONTACT'']
   \<and> w_phases (run_schedule email_filter ''u2'' two_creations (one_by_one 0 2)
              (arrivals nearly_full_db two_creations))
     = [Committed, Rejected 403 ''CONTACT_LIMIT_REACHED'']"
  by code_simp

end
